theory Spec2Isabelle
  imports Main "HOL-Library.Word" "HOL-Library.Signed_Division"
begin

unbundle bit_operations_syntax

section \<open>The difference engine of package diff\<close>

text \<open>
  The development embeds the file diff.go: the interface of two counted sequences with a
  positional equality, the recursive driver \<open>compare\<close>, the bidirectional search
  \<open>findMiddleSnake\<close> and the edit script builder \<open>result\<close>.

  Go's \<open>int\<close> is modelled by the unbounded \<open>int\<close> of HOL: the quantities of a run
  are positions in the two sequences and indices of slices of length \<open>2 * (N + M + 1)\<close>,
  far from the limits of a 64-bit \<open>int\<close> in any run that gets its memory, so wrap-around
  is not modelled. A run-time panic (an index
  out of range, a negative length given to make, the explicit panic of findMiddleSnake) is a
  value of type \<open>error\<close>; a function that can panic returns \<open>error + 'a\<close>.
\<close>

subsection \<open>Errors, slices\<close>

datatype error = IndexOutOfRange | LenOutOfRange | NeverReached

definition bindE :: "error + 'a \<Rightarrow> ('a \<Rightarrow> error + 'b) \<Rightarrow> error + 'b" where
  "bindE r f = (case r of Inl e \<Rightarrow> Inl e | Inr v \<Rightarrow> f v)"

text \<open>\<open>make([]T, n)\<close>: a slice of \<open>n\<close> zero values; a negative length panics.\<close>

definition make_slice :: "int \<Rightarrow> error + ('a::zero) list" where
  "make_slice n = (if n < 0 then Inl LenOutOfRange else Inr (replicate (nat n) 0))"

text \<open>\<open>s[i]\<close> as a value and \<open>s[i] = v\<close> as a statement; both panic out of range.\<close>

definition idx :: "'a list \<Rightarrow> int \<Rightarrow> error + 'a" where
  "idx s i = (if 0 \<le> i \<and> i < int (length s) then Inr (s ! nat i) else Inl IndexOutOfRange)"

definition upd :: "'a list \<Rightarrow> int \<Rightarrow> 'a \<Rightarrow> error + 'a list" where
  "upd s i v = (if 0 \<le> i \<and> i < int (length s) then Inr (s[nat i := v]) else Inl IndexOutOfRange)"

text \<open>A nil slice has length 0.\<close>

definition slice :: "'a list option \<Rightarrow> 'a list" where
  "slice s = (case s of None \<Rightarrow> [] | Some xs \<Rightarrow> xs)"

subsection \<open>Interface, Ints_seq, Change, context\<close>

record Interface =
  N :: int
  M :: int
  Equal :: "int \<Rightarrow> int \<Rightarrow> error + bool"

text \<open>\<open>Ints\<close>: two int slices (the name \<open>Ints\<close> is taken in HOL); \<open>Equal\<close> indexes both and panics out of range.\<close>

definition Ints_seq :: "int list \<Rightarrow> int list \<Rightarrow> Interface" where
  "Ints_seq a b = \<lparr> N = int (length a), M = int (length b),
     Equal = (\<lambda>i j. bindE (idx a i) (\<lambda>u. bindE (idx b j) (\<lambda>v. Inr (u = v)))) \<rparr>"

record Change =
  A :: int
  B :: int
  Del :: int
  Ins :: int

record "context" =
  data :: Interface
  flags :: "8 word list"
  max_c :: int
  forward :: "int list option"
  reverse :: "int list option"

subsection \<open>compare: trimming and marking\<close>

lemma bindE_cong [fundef_cong]:
  "r = r' \<Longrightarrow> (\<And>v. r' = Inr v \<Longrightarrow> f v = f' v) \<Longrightarrow> bindE r f = bindE r' f'"
  by (auto simp: bindE_def split: sum.splits)

text \<open>
  The loop \<open>for aoffset < alimit && boffset < blimit && Equal(aoffset, boffset)
  { aoffset++; boffset++ }\<close>, returning the final \<open>aoffset\<close> and \<open>boffset\<close>.
\<close>

function eat_prefix :: "Interface \<Rightarrow> int \<Rightarrow> int \<Rightarrow> int \<Rightarrow> int \<Rightarrow> error + int \<times> int" where
  "eat_prefix dt aoffset boffset alimit blimit =
     (if aoffset < alimit \<and> boffset < blimit then
        bindE (Equal dt aoffset boffset) (\<lambda>eq.
          if eq then eat_prefix dt (aoffset + 1) (boffset + 1) alimit blimit
          else Inr (aoffset, boffset))
      else Inr (aoffset, boffset))"
  by pat_completeness auto
termination
  by (relation "measure (\<lambda>(dt, aoffset, boffset, alimit, blimit). nat (alimit - aoffset))") auto

declare eat_prefix.simps [simp del]

text \<open>
  The loop \<open>for alimit > aoffset && blimit > boffset && Equal(alimit-1, blimit-1)
  { alimit--; blimit-- }\<close>, returning the final \<open>alimit\<close> and \<open>blimit\<close>.
\<close>

function eat_suffix :: "Interface \<Rightarrow> int \<Rightarrow> int \<Rightarrow> int \<Rightarrow> int \<Rightarrow> error + int \<times> int" where
  "eat_suffix dt aoffset boffset alimit blimit =
     (if alimit > aoffset \<and> blimit > boffset then
        bindE (Equal dt (alimit - 1) (blimit - 1)) (\<lambda>eq.
          if eq then eat_suffix dt aoffset boffset (alimit - 1) (blimit - 1)
          else Inr (alimit, blimit))
      else Inr (alimit, blimit))"
  by pat_completeness auto
termination
  by (relation "measure (\<lambda>(dt, aoffset, boffset, alimit, blimit). nat (alimit - aoffset))") auto

declare eat_suffix.simps [simp del]

text \<open>The loop \<open>for i < limit { flags[i] |= w; i++ }\<close>.\<close>

function mark :: "8 word \<Rightarrow> 8 word list \<Rightarrow> int \<Rightarrow> int \<Rightarrow> error + 8 word list" where
  "mark w fl i limit =
     (if i < limit then
        bindE (idx fl i) (\<lambda>v. bindE (upd fl i (v OR w)) (\<lambda>fl'. mark w fl' (i + 1) limit))
      else Inr fl)"
  by pat_completeness auto
termination
  by (relation "measure (\<lambda>(w, fl, i, limit). nat (limit - i))") auto

declare mark.simps [simp del]

subsection \<open>findMiddleSnake\<close>

text \<open>
  The forward search of one radius \<open>d\<close>: the loop \<open>for k := fmid - d; k <= fmid+d; k += 2\<close>
  from its current \<open>k\<close>. It returns the forward slice and, when the loop body executed
  \<open>return x, x - k\<close>, that pair. The operands of \<open>||\<close> and \<open>&&\<close> are evaluated
  left to right and only as far as needed, so a slice is indexed only where Go indexes it.
\<close>

function forward_search ::
  "Interface \<Rightarrow> int \<Rightarrow> int \<Rightarrow> int \<Rightarrow> int \<Rightarrow> int \<Rightarrow> int \<Rightarrow> int list \<Rightarrow> int list \<Rightarrow> int
     \<Rightarrow> error + int list \<times> (int \<times> int) option" where
  "forward_search dt mx aoffset boffset alimit blimit d rv fw k =
     (let fmid = aoffset - boffset; rmid = alimit - blimit;
          foff = mx - fmid; roff = mx - rmid;
          isodd = ((rmid - fmid) AND 1 \<noteq> 0)
      in if k \<le> fmid + d then
           bindE (if k = fmid - d then Inr True
                  else if k \<noteq> fmid + d then
                    bindE (idx fw (foff + k + 1)) (\<lambda>p. bindE (idx fw (foff + k - 1)) (\<lambda>q. Inr (p < q)))
                  else Inr False) (\<lambda>down.
           bindE (if down then idx fw (foff + k + 1)
                  else bindE (idx fw (foff + k - 1)) (\<lambda>q. Inr (q + 1))) (\<lambda>x.
           bindE (eat_prefix dt x (x - k) alimit blimit) (\<lambda>(x, y).
           bindE (upd fw (foff + k) x) (\<lambda>fw'.
           bindE (if isodd \<and> k > rmid - d \<and> k < rmid + d then
                    bindE (idx rv (roff + k)) (\<lambda>r. bindE (idx fw' (foff + k)) (\<lambda>f. Inr (r \<le> f)))
                  else Inr False) (\<lambda>met.
           if met then Inr (fw', Some (x, x - k))
           else forward_search dt mx aoffset boffset alimit blimit d rv fw' (k + 2))))))
         else Inr (fw, None))"
  by pat_completeness auto
termination
  by (relation "measure (\<lambda>(dt, mx, aoffset, boffset, alimit, blimit, d, rv, fw, k).
        nat (aoffset - boffset + d - k + 1))") auto

declare forward_search.simps [simp del]

text \<open>
  The reverse search of one radius: the loop \<open>for k := rmid - d; k <= rmid+d; k += 2\<close>.
  On a meeting it returns the forward end point \<open>c.forward[foff+k]\<close>.
\<close>

function reverse_search ::
  "Interface \<Rightarrow> int \<Rightarrow> int \<Rightarrow> int \<Rightarrow> int \<Rightarrow> int \<Rightarrow> int \<Rightarrow> int list \<Rightarrow> int list \<Rightarrow> int
     \<Rightarrow> error + int list \<times> (int \<times> int) option" where
  "reverse_search dt mx aoffset boffset alimit blimit d fw rv k =
     (let fmid = aoffset - boffset; rmid = alimit - blimit;
          foff = mx - fmid; roff = mx - rmid;
          isodd = ((rmid - fmid) AND 1 \<noteq> 0)
      in if k \<le> rmid + d then
           bindE (if k = rmid + d then Inr True
                  else if k \<noteq> rmid - d then
                    bindE (idx rv (roff + k - 1)) (\<lambda>p. bindE (idx rv (roff + k + 1)) (\<lambda>q. Inr (p < q)))
                  else Inr False) (\<lambda>up.
           bindE (if up then idx rv (roff + k - 1)
                  else bindE (idx rv (roff + k + 1)) (\<lambda>q. Inr (q - 1))) (\<lambda>x.
           bindE (eat_suffix dt aoffset boffset x (x - k)) (\<lambda>(x, y).
           bindE (upd rv (roff + k) x) (\<lambda>rv'.
           bindE (if \<not> isodd \<and> k \<ge> fmid - d \<and> k \<le> fmid + d then
                    bindE (idx rv' (roff + k)) (\<lambda>r. bindE (idx fw (foff + k)) (\<lambda>f. Inr (r \<le> f)))
                  else Inr False) (\<lambda>met.
           if met then bindE (idx fw (foff + k)) (\<lambda>x. Inr (rv', Some (x, x - k)))
           else reverse_search dt mx aoffset boffset alimit blimit d fw rv' (k + 2))))))
         else Inr (rv, None))"
  by pat_completeness auto
termination
  by (relation "measure (\<lambda>(dt, mx, aoffset, boffset, alimit, blimit, d, fw, rv, k).
        nat (alimit - blimit + d - k + 1))") auto

declare reverse_search.simps [simp del]

text \<open>
  The loop \<open>for d := 0; d <= maxd; d++\<close> from its current \<open>d\<close>, with the panic
  that follows it.
\<close>

function search ::
  "Interface \<Rightarrow> int \<Rightarrow> int \<Rightarrow> int \<Rightarrow> int \<Rightarrow> int \<Rightarrow> int \<Rightarrow> int list \<Rightarrow> int list \<Rightarrow> int
     \<Rightarrow> error + (int list \<times> int list) \<times> int \<times> int" where
  "search dt mx aoffset boffset alimit blimit maxd fw rv d =
     (if d \<le> maxd then
        bindE (forward_search dt mx aoffset boffset alimit blimit d rv fw (aoffset - boffset - d))
          (\<lambda>(fw', r). case r of
              Some p \<Rightarrow> Inr ((fw', rv), p)
            | None \<Rightarrow>
                bindE (reverse_search dt mx aoffset boffset alimit blimit d fw' rv (alimit - blimit - d))
                  (\<lambda>(rv', r). case r of
                      Some p \<Rightarrow> Inr ((fw', rv'), p)
                    | None \<Rightarrow> search dt mx aoffset boffset alimit blimit maxd fw' rv' (d + 1)))
      else Inl NeverReached)"
  by pat_completeness auto
termination
  by (relation "measure (\<lambda>(dt, mx, aoffset, boffset, alimit, blimit, maxd, fw, rv, d).
        nat (maxd - d + 1))") auto

declare search.simps [simp del]

text \<open>Go's \<open>/\<close> on ints truncates towards zero: \<open>sdiv\<close>.\<close>

definition findMiddleSnake ::
  "context \<Rightarrow> int \<Rightarrow> int \<Rightarrow> int \<Rightarrow> int \<Rightarrow> error + context \<times> int \<times> int" where
  "findMiddleSnake c aoffset boffset alimit blimit =
     (let maxd = (alimit - aoffset + blimit - boffset + 2) sdiv 2 in
      bindE (if forward c = None then
               bindE (make_slice (2 * max_c c)) (\<lambda>f. bindE (make_slice (2 * max_c c)) (\<lambda>r.
                 Inr (c\<lparr>forward := Some f, reverse := Some r\<rparr>)))
             else Inr c) (\<lambda>c.
      bindE (upd (slice (forward c)) (max_c c + 1) aoffset) (\<lambda>fw.
      bindE (upd (slice (reverse c)) (max_c c - 1) alimit) (\<lambda>rv.
      bindE (search (data c) (max_c c) aoffset boffset alimit blimit maxd fw rv 0)
        (\<lambda>((fw', rv'), (x, y)). Inr (c\<lparr>forward := Some fw', reverse := Some rv'\<rparr>, x, y))))))"

subsection \<open>compare\<close>

text \<open>
  The recursion of \<open>compare\<close> is not structural and the code gives no bound for it, so the
  model is a partial function: \<open>None\<close> is a run that does not return, \<open>Some (Inl e)\<close> a
  panic, \<open>Some (Inr c)\<close> a normal return with the context as the run left it.
\<close>

partial_function (option) compare ::
  "context \<Rightarrow> int \<Rightarrow> int \<Rightarrow> int \<Rightarrow> int \<Rightarrow> (error + context) option" where
  "compare c aoffset boffset alimit blimit =
     (case bindE (eat_prefix (data c) aoffset boffset alimit blimit) (\<lambda>(aoffset, boffset).
           bindE (eat_suffix (data c) aoffset boffset alimit blimit) (\<lambda>(alimit, blimit).
             Inr (aoffset, boffset, alimit, blimit))) of
        Inl e \<Rightarrow> Some (Inl e)
      | Inr (aoffset, boffset, alimit, blimit) \<Rightarrow>
          if aoffset = alimit then
            Some (bindE (mark 2 (flags c) boffset blimit) (\<lambda>fl. Inr (c\<lparr>flags := fl\<rparr>)))
          else if boffset = blimit then
            Some (bindE (mark 1 (flags c) aoffset alimit) (\<lambda>fl. Inr (c\<lparr>flags := fl\<rparr>)))
          else
            (case findMiddleSnake c aoffset boffset alimit blimit of
               Inl e \<Rightarrow> Some (Inl e)
             | Inr (c1, x, y) \<Rightarrow>
                 Option.bind (compare c1 aoffset boffset x y) (\<lambda>r.
                   case r of
                     Inl e \<Rightarrow> Some (Inl e)
                   | Inr c2 \<Rightarrow> compare c2 x y alimit blimit)))"

declare compare.simps [code]

subsection \<open>result\<close>

text \<open>The loop \<open>for x < n && (y >= m || c.flags[x]&1 != 0) { x++ }\<close>.\<close>

function skip_del :: "8 word list \<Rightarrow> int \<Rightarrow> int \<Rightarrow> int \<Rightarrow> int \<Rightarrow> error + int" where
  "skip_del fl n m y x =
     (if x < n then
        bindE (if y \<ge> m then Inr True else bindE (idx fl x) (\<lambda>v. Inr (v AND 1 \<noteq> 0))) (\<lambda>go.
          if go then skip_del fl n m y (x + 1) else Inr x)
      else Inr x)"
  by pat_completeness auto
termination
  by (relation "measure (\<lambda>(fl, n, m, y, x). nat (n - x))") auto

declare skip_del.simps [simp del]

text \<open>The loop \<open>for y < m && (x >= n || c.flags[y]&2 != 0) { y++ }\<close>.\<close>

function skip_ins :: "8 word list \<Rightarrow> int \<Rightarrow> int \<Rightarrow> int \<Rightarrow> int \<Rightarrow> error + int" where
  "skip_ins fl n m x y =
     (if y < m then
        bindE (if x \<ge> n then Inr True else bindE (idx fl y) (\<lambda>v. Inr (v AND 2 \<noteq> 0))) (\<lambda>go.
          if go then skip_ins fl n m x (y + 1) else Inr y)
      else Inr y)"
  by pat_completeness auto
termination
  by (relation "measure (\<lambda>(fl, n, m, x, y). nat (m - y))") auto

declare skip_ins.simps [simp del]

text \<open>Both inner loops only advance, and one of them advances when the pair is marked.\<close>

lemma skip_del_ge: "skip_del fl n m y x = Inr x' \<Longrightarrow> x \<le> x'"
proof (induction fl n m y x rule: skip_del.induct)
  case (1 fl n m y x)
  then show ?case
    by (subst (asm) (2) skip_del.simps) (fastforce simp: bindE_def split: if_splits sum.splits)
qed

lemma skip_del_le: "skip_del fl n m y x = Inr x' \<Longrightarrow> x \<le> n \<Longrightarrow> x' \<le> n"
proof (induction fl n m y x rule: skip_del.induct)
  case (1 fl n m y x)
  then show ?case
    by (subst (asm) (2) skip_del.simps) (fastforce simp: bindE_def split: if_splits sum.splits)
qed

lemma skip_del_stop: "skip_del fl n m y x = Inr x' \<Longrightarrow> x' < n \<Longrightarrow> y < m \<and> (\<exists>v. idx fl x' = Inr v \<and> v AND 1 = 0)"
proof (induction fl n m y x rule: skip_del.induct)
  case (1 fl n m y x)
  then show ?case
    by (subst (asm) (2) skip_del.simps) (fastforce simp: bindE_def split: if_splits sum.splits)
qed

lemma skip_del_id: "n \<le> x \<Longrightarrow> skip_del fl n m y x = Inr x"
  by (subst skip_del.simps) simp

lemma skip_del_progress:
  "skip_del fl n m y x = Inr x' \<Longrightarrow> x < n \<Longrightarrow> m \<le> y \<or> (\<exists>v. idx fl x = Inr v \<and> v AND 1 \<noteq> 0) \<Longrightarrow> x < x'"
  by (subst (asm) skip_del.simps) (auto simp: bindE_def split: if_splits sum.splits dest: skip_del_ge)

lemma skip_ins_ge: "skip_ins fl n m x y = Inr y' \<Longrightarrow> y \<le> y'"
proof (induction fl n m x y rule: skip_ins.induct)
  case (1 fl n m x y)
  then show ?case
    by (subst (asm) (2) skip_ins.simps) (fastforce simp: bindE_def split: if_splits sum.splits)
qed

lemma skip_ins_le: "skip_ins fl n m x y = Inr y' \<Longrightarrow> y \<le> m \<Longrightarrow> y' \<le> m"
proof (induction fl n m x y rule: skip_ins.induct)
  case (1 fl n m x y)
  then show ?case
    by (subst (asm) (2) skip_ins.simps) (fastforce simp: bindE_def split: if_splits sum.splits)
qed

lemma skip_ins_stop: "skip_ins fl n m x y = Inr y' \<Longrightarrow> y' < m \<Longrightarrow> x < n \<and> (\<exists>v. idx fl y' = Inr v \<and> v AND 2 = 0)"
proof (induction fl n m x y rule: skip_ins.induct)
  case (1 fl n m x y)
  then show ?case
    by (subst (asm) (2) skip_ins.simps) (fastforce simp: bindE_def split: if_splits sum.splits)
qed

lemma skip_ins_id: "m \<le> y \<Longrightarrow> skip_ins fl n m x y = Inr y"
  by (subst skip_ins.simps) simp

lemma skip_ins_progress:
  "skip_ins fl n m x y = Inr y' \<Longrightarrow> y < m \<Longrightarrow> n \<le> x \<or> (\<exists>v. idx fl y = Inr v \<and> v AND 2 \<noteq> 0) \<Longrightarrow> y < y'"
  by (subst (asm) skip_ins.simps) (auto simp: bindE_def split: if_splits sum.splits dest: skip_ins_ge)

text \<open>
  The condition \<open>x < n && y < m && c.flags[x]&1 == 0 && c.flags[y]&2 == 0\<close> of the
  loop body of \<open>result\<close>.
\<close>

definition unmarked :: "8 word list \<Rightarrow> int \<Rightarrow> int \<Rightarrow> int \<Rightarrow> int \<Rightarrow> error + bool" where
  "unmarked fl n m x y =
     (if x < n \<and> y < m then
        bindE (idx fl x) (\<lambda>v. if v AND 1 = 0 then bindE (idx fl y) (\<lambda>w. Inr (w AND 2 = 0)) else Inr False)
      else Inr False)"

lemma result_progress:
  assumes "x < n \<or> y < m" "unmarked fl n m x y = Inr False"
    "skip_del fl n m y x = Inr x'" "skip_ins fl n m x' y = Inr y'"
  shows "x \<le> x' \<and> y \<le> y' \<and> (x < x' \<or> y < y') \<and> (x < n \<longrightarrow> x' \<le> n) \<and> (y < m \<longrightarrow> y' \<le> m)
    \<and> (n \<le> x \<longrightarrow> x' = x) \<and> (m \<le> y \<longrightarrow> y' = y)"
proof -
  have id: "n \<le> x \<longrightarrow> x' = x" "m \<le> y \<longrightarrow> y' = y"
    using assms(3,4) by (auto simp: skip_del_id skip_ins_id)
  have ge: "x \<le> x'" "y \<le> y'" using assms skip_del_ge skip_ins_ge by blast+
  have le: "x < n \<longrightarrow> x' \<le> n" "y < m \<longrightarrow> y' \<le> m"
    using assms skip_del_le skip_ins_le by force+
  have "x < x' \<or> y < y'"
  proof (cases "x < n")
    case xn: True
    show ?thesis
    proof (cases "y < m")
      case ym: True
      from assms(2) xn ym obtain v where v: "idx fl x = Inr v"
        by (auto simp: unmarked_def bindE_def split: sum.splits)
      show ?thesis
      proof (cases "v AND 1 = 0")
        case True
        with assms(2) xn ym v obtain w where w: "idx fl y = Inr w" "w AND 2 \<noteq> 0"
          by (auto simp: unmarked_def bindE_def split: sum.splits)
        then show ?thesis using skip_ins_progress[OF assms(4) ym] by blast
      next
        case False
        then show ?thesis using skip_del_progress[OF assms(3) xn] v by blast
      qed
    next
      case False
      then show ?thesis using skip_del_progress[OF assms(3) xn] by simp
    qed
  next
    case False
    then have ym: "y < m" and "n \<le> x'" using assms(1) ge by auto
    then show ?thesis using skip_ins_progress[OF assms(4) ym] by simp
  qed
  with ge le id show ?thesis by blast
qed

text \<open>
  The loop \<open>for x < n || y < m\<close> of \<open>result\<close> from its current \<open>x\<close>,
  \<open>y\<close> and \<open>res\<close>.
\<close>

function result_loop :: "8 word list \<Rightarrow> int \<Rightarrow> int \<Rightarrow> int \<Rightarrow> int \<Rightarrow> Change list \<Rightarrow> error + Change list" where
  "result_loop fl n m x y res =
     (if x < n \<or> y < m then
        bindE (unmarked fl n m x y) (\<lambda>same.
          if same then result_loop fl n m (x + 1) (y + 1) res
          else
            bindE (skip_del fl n m y x) (\<lambda>x'.
            bindE (skip_ins fl n m x' y) (\<lambda>y'.
              result_loop fl n m x' y'
                (if x < x' \<or> y < y' then res @ [\<lparr>A = x, B = y, Del = x' - x, Ins = y' - y\<rparr>] else res))))
      else Inr res)"
  by pat_completeness auto
termination
proof (relation "measure (\<lambda>(fl, n, m, x, y, res). nat (n - x) + nat (m - y))", goal_cases)
  case 1
  show ?case by simp
next
  case (2 fl n m x y res same)
  then show ?case by (auto simp: unmarked_def split: if_splits)
next
  case (3 fl n m x y res same x' y')
  then show ?case using result_progress[of x n y m fl x' y'] by auto
qed

declare result_loop.simps [simp del]

definition result :: "context \<Rightarrow> int \<Rightarrow> int \<Rightarrow> error + Change list" where
  "result c n m = result_loop (flags c) n m 0 0 []"

subsection \<open>Diff\<close>

definition Diff :: "Interface \<Rightarrow> (error + Change list) option" where
  "Diff dt =
     (let n = N dt; m = M dt in
      case make_slice (if n > m then n else m) of
        Inl e \<Rightarrow> Some (Inl e)
      | Inr fl \<Rightarrow>
          Option.bind
            (compare \<lparr>data = dt, flags = fl, max_c = n + m + 1, forward = None, reverse = None\<rparr> 0 0 n m)
            (\<lambda>r. Some (bindE r (\<lambda>c. result c n m))))"

section \<open>Basic facts about the loops\<close>

lemma bindE_Inr [simp]: "bindE (Inr v) f = f v"
  by (simp add: bindE_def)

lemma bindE_Inl [simp]: "bindE (Inl e) f = Inl e"
  by (simp add: bindE_def)

lemma bindE_eq_Inr: "bindE r f = Inr w \<longleftrightarrow> (\<exists>v. r = Inr v \<and> f v = Inr w)"
  by (cases r) auto

lemma eat_prefix_stop: "\<not> (aoffset < alimit \<and> boffset < blimit) \<Longrightarrow>
    eat_prefix dt aoffset boffset alimit blimit = Inr (aoffset, boffset)"
  by (subst eat_prefix.simps) auto

lemma eat_suffix_stop: "\<not> (aoffset < alimit \<and> boffset < blimit) \<Longrightarrow>
    eat_suffix dt aoffset boffset alimit blimit = Inr (alimit, blimit)"
  by (subst eat_suffix.simps) auto

lemma mark_stop: "limit \<le> i \<Longrightarrow> mark w fl i limit = Inr fl"
  by (subst mark.simps) simp

text \<open>\<open>mark\<close> on a range inside the slice sets the bit on the range and nothing else.\<close>

lemma mark_range:
  "0 \<le> i \<Longrightarrow> limit \<le> int (length fl) \<Longrightarrow>
   mark w fl i limit = Inr (map (\<lambda>j. if i \<le> int j \<and> int j < limit then fl ! j OR w else fl ! j) [0..<length fl])"
proof (induction w fl i limit rule: mark.induct)
  case (1 w fl i limit)
  show ?case
  proof (cases "i < limit")
    case False
    then have "map (\<lambda>j. if i \<le> int j \<and> int j < limit then fl ! j OR w else fl ! j) [0..<length fl] = fl"
      by (intro nth_equalityI) auto
    with False show ?thesis by (simp add: mark_stop)
  next
    case True
    let ?fl' = "fl[nat i := fl ! nat i OR w]"
    have i: "idx fl i = Inr (fl ! nat i)" "upd fl i (fl ! nat i OR w) = Inr ?fl'"
      using True "1.prems" by (auto simp: idx_def upd_def)
    have "mark w ?fl' (i + 1) limit =
        Inr (map (\<lambda>j. if i + 1 \<le> int j \<and> int j < limit then ?fl' ! j OR w else ?fl' ! j) [0..<length ?fl'])"
      using "1.IH"[OF True i(1) i(2)] "1.prems" by simp
    also have "map (\<lambda>j. if i + 1 \<le> int j \<and> int j < limit then ?fl' ! j OR w else ?fl' ! j) [0..<length ?fl']
        = map (\<lambda>j. if i \<le> int j \<and> int j < limit then fl ! j OR w else fl ! j) [0..<length fl]"
    proof (intro nth_equalityI)
      fix j assume "j < length (map (\<lambda>j. if i + 1 \<le> int j \<and> int j < limit then ?fl' ! j OR w else ?fl' ! j) [0..<length ?fl'])"
      then have j: "j < length fl" by simp
      have "int j = i \<longleftrightarrow> j = nat i" using "1.prems"(1) by auto
      then show "map (\<lambda>j. if i + 1 \<le> int j \<and> int j < limit then ?fl' ! j OR w else ?fl' ! j) [0..<length ?fl'] ! j
          = map (\<lambda>j. if i \<le> int j \<and> int j < limit then fl ! j OR w else fl ! j) [0..<length fl] ! j"
        using j True by (cases "j = nat i") (auto simp: nth_list_update)
    qed simp
    finally show ?thesis
      using True i by (subst mark.simps) simp
  qed
qed


lemma skip_del_all: "m \<le> y \<Longrightarrow> x \<le> n \<Longrightarrow> skip_del fl n m y x = Inr n"
proof (induction fl n m y x rule: skip_del.induct)
  case (1 fl n m y x)
  then show ?case by (subst skip_del.simps) auto
qed

lemma skip_ins_all: "n \<le> x \<Longrightarrow> y \<le> m \<Longrightarrow> skip_ins fl n m x y = Inr m"
proof (induction fl n m x y rule: skip_ins.induct)
  case (1 fl n m x y)
  then show ?case by (subst skip_ins.simps) auto
qed

lemma result_loop_stop: "n \<le> x \<Longrightarrow> m \<le> y \<Longrightarrow> result_loop fl n m x y res = Inr res"
  by (subst result_loop.simps) simp

lemma result_loop_del_rest:
  "x < n \<Longrightarrow> m \<le> y \<Longrightarrow>
   result_loop fl n m x y res = Inr (res @ [\<lparr>A = x, B = y, Del = n - x, Ins = 0\<rparr>])"
  by (subst result_loop.simps)
     (simp add: unmarked_def skip_del_all skip_ins_id result_loop_stop)

lemma result_loop_ins_rest:
  "n \<le> x \<Longrightarrow> y < m \<Longrightarrow>
   result_loop fl n m x y res = Inr (res @ [\<lparr>A = x, B = y, Del = 0, Ins = m - y\<rparr>])"
  by (subst result_loop.simps)
     (simp add: unmarked_def skip_del_id skip_ins_all result_loop_stop)

lemma make_slice_Inr: "0 \<le> n \<Longrightarrow> make_slice n = Inr (replicate (nat n) 0)"
  by (simp add: make_slice_def)

section \<open>Degenerate inputs\<close>

text \<open>
  C9: if both sequences are empty, \<open>Diff\<close> returns no change; if exactly one is empty it
  returns the single change that covers the other sequence: \<open>{A:0, B:0, Del:N, Ins:0}\<close>
  when \<open>M = 0 < N\<close>, and \<open>{A:0, B:0, Del:0, Ins:M}\<close> when \<open>N = 0 < M\<close>.
\<close>

theorem Diff_empty:
  "(N dt = 0 \<and> M dt = 0 \<longrightarrow> Diff dt = Some (Inr [])) \<and>
   (M dt = 0 \<and> N dt > 0 \<longrightarrow> Diff dt = Some (Inr [\<lparr>A = 0, B = 0, Del = N dt, Ins = 0\<rparr>])) \<and>
   (N dt = 0 \<and> M dt > 0 \<longrightarrow> Diff dt = Some (Inr [\<lparr>A = 0, B = 0, Del = 0, Ins = M dt\<rparr>]))"
proof (intro conjI impI)
  assume "N dt = 0 \<and> M dt = 0"
  then show "Diff dt = Some (Inr [])"
    unfolding Diff_def
    by (subst compare.simps)
       (simp add: make_slice_Inr eat_prefix_stop eat_suffix_stop mark_stop result_def result_loop_stop)
next
  assume a: "M dt = 0 \<and> N dt > 0"
  then obtain fl' where "mark 1 (replicate (nat (N dt)) 0) 0 (N dt) = Inr fl'"
    by (simp add: mark_range)
  with a show "Diff dt = Some (Inr [\<lparr>A = 0, B = 0, Del = N dt, Ins = 0\<rparr>])"
    unfolding Diff_def
    by (subst compare.simps)
       (simp add: make_slice_Inr eat_prefix_stop eat_suffix_stop result_def result_loop_del_rest)
next
  assume a: "N dt = 0 \<and> M dt > 0"
  then obtain fl' where "mark 2 (replicate (nat (M dt)) 0) 0 (M dt) = Inr fl'"
    by (simp add: mark_range)
  with a show "Diff dt = Some (Inr [\<lparr>A = 0, B = 0, Del = 0, Ins = M dt\<rparr>])"
    unfolding Diff_def
    by (subst compare.simps)
       (simp add: make_slice_Inr eat_prefix_stop eat_suffix_stop result_def result_loop_ins_rest)
qed

theorem Diff_empty_witness:
  "Diff (Ints_seq [] []) = Some (Inr []) \<and>
   Diff (Ints_seq [7, 8, 9] []) = Some (Inr [\<lparr>A = 0, B = 0, Del = 3, Ins = 0\<rparr>]) \<and>
   Diff (Ints_seq [] [5, 6]) = Some (Inr [\<lparr>A = 0, B = 0, Del = 0, Ins = 2\<rparr>])"
  using Diff_empty [of "Ints_seq [] []"] Diff_empty [of "Ints_seq [7, 8, 9] []"] Diff_empty [of "Ints_seq [] [5, 6]"]
  by (simp add: Ints_seq_def)

section \<open>Diffing a sequence against itself\<close>

lemma eat_prefix_all:
  "aoffset \<le> alimit \<Longrightarrow> alimit - aoffset = blimit - boffset \<Longrightarrow>
   (\<forall>j. 0 \<le> j \<and> j < alimit - aoffset \<longrightarrow> Equal dt (aoffset + j) (boffset + j) = Inr True) \<Longrightarrow>
   eat_prefix dt aoffset boffset alimit blimit = Inr (alimit, blimit)"
proof (induction dt aoffset boffset alimit blimit rule: eat_prefix.induct)
  case (1 dt aoffset boffset alimit blimit)
  show ?case
  proof (cases "aoffset < alimit")
    case False
    with "1.prems" show ?thesis by (simp add: eat_prefix_stop)
  next
    case True
    then have b: "boffset < blimit" using "1.prems"(2) by simp
    have e: "Equal dt aoffset boffset = Inr True" using "1.prems"(3) True by force
    have "\<forall>j. 0 \<le> j \<and> j < alimit - (aoffset + 1) \<longrightarrow> Equal dt (aoffset + 1 + j) (boffset + 1 + j) = Inr True"
    proof (intro allI impI)
      fix j assume "0 \<le> j \<and> j < alimit - (aoffset + 1)"
      then have "Equal dt (aoffset + (j + 1)) (boffset + (j + 1)) = Inr True"
        using "1.prems"(3) by force
      then show "Equal dt (aoffset + 1 + j) (boffset + 1 + j) = Inr True"
        by (simp add: add.commute add.left_commute)
    qed
    then have "eat_prefix dt (aoffset + 1) (boffset + 1) alimit blimit = Inr (alimit, blimit)"
      using "1.IH"[of True] True b e "1.prems"(2) by simp
    then show ?thesis using True b e by (subst eat_prefix.simps) simp
  qed
qed

lemma result_loop_unmarked:
  "0 \<le> x \<Longrightarrow> n \<le> int (length fl) \<Longrightarrow> n - x = m - y \<Longrightarrow> y < x + 1 \<Longrightarrow> x < y + 1 \<Longrightarrow>
   (\<forall>j. x \<le> int j \<and> int j < n \<longrightarrow> fl ! j = 0) \<Longrightarrow>
   result_loop fl n m x y res = Inr res"
proof (induction fl n m x y res rule: result_loop.induct)
  case (1 fl n m x y res)
  show ?case
  proof (cases "x < n")
    case False
    with "1.prems" show ?thesis by (simp add: result_loop_stop)
  next
    case True
    have xy: "y = x" using "1.prems" by simp
    have "fl ! nat x = 0" using "1.prems" True by (metis int_nat_eq order_refl)
    then have u: "unmarked fl n m x y = Inr True"
      using True xy "1.prems" by (simp add: unmarked_def idx_def)
    have "result_loop fl n m (x + 1) (y + 1) res = Inr res"
      using "1.IH"(1)[OF _ u] True "1.prems" xy by simp
    then show ?thesis using True u by (subst result_loop.simps) simp
  qed
qed

text \<open>
  C4: when \<open>N = M\<close> and \<open>Equal(i, i)\<close> holds for every position, as with two identical
  slices, \<open>Diff\<close> returns the empty change list.
\<close>

theorem Diff_self:
  assumes "0 \<le> N dt" and "M dt = N dt"
    and "\<forall>i. 0 \<le> i \<and> i < N dt \<longrightarrow> Equal dt i i = Inr True"
  shows "Diff dt = Some (Inr [])"
proof -
  have p: "eat_prefix dt 0 0 (N dt) (N dt) = Inr (N dt, N dt)"
    using assms by (intro eat_prefix_all) auto
  have r: "result_loop (replicate (nat (N dt)) 0) (N dt) (N dt) 0 0 [] = Inr []"
    using assms(1) by (intro result_loop_unmarked) auto
  show ?thesis
    unfolding Diff_def using assms(1,2) p r
    by (subst compare.simps)
       (simp add: make_slice_Inr eat_suffix_stop mark_stop result_def)
qed

theorem Diff_self_witness:
  "Diff (Ints_seq [3, 1, 4, 1, 5] [3, 1, 4, 1, 5]) = Some (Inr [])"
proof -
  have "\<forall>i. 0 \<le> i \<and> i < N (Ints_seq [3, 1, 4, 1, 5] [3, 1, 4, 1, 5])
          \<longrightarrow> Equal (Ints_seq [3, 1, 4, 1, 5] [3, 1, 4, 1, 5]) i i = Inr True"
    by (simp add: Ints_seq_def idx_def)
  then show ?thesis
    using Diff_self [of "Ints_seq [3, 1, 4, 1, 5] [3, 1, 4, 1, 5]"] by (simp add: Ints_seq_def)
qed

section \<open>The two searches, one iteration at a time\<close>

lemma bindE_assoc: "bindE (bindE r f) g = bindE r (\<lambda>v. bindE (f v) g)"
  by (cases r) auto

text \<open>One iteration of the forward loop: the slice written, the end point \<open>x\<close> and the test.\<close>

definition fstep ::
  "Interface \<Rightarrow> int \<Rightarrow> int \<Rightarrow> int \<Rightarrow> int \<Rightarrow> int \<Rightarrow> int \<Rightarrow> int list \<Rightarrow> int list \<Rightarrow> int
     \<Rightarrow> error + int list \<times> int \<times> bool" where
  "fstep dt mx aoffset boffset alimit blimit d rv fw k =
     (let fmid = aoffset - boffset; rmid = alimit - blimit;
          foff = mx - fmid; roff = mx - rmid;
          isodd = ((rmid - fmid) AND 1 \<noteq> 0)
      in bindE (if k = fmid - d then Inr True
                  else if k \<noteq> fmid + d then
                    bindE (idx fw (foff + k + 1)) (\<lambda>p. bindE (idx fw (foff + k - 1)) (\<lambda>q. Inr (p < q)))
                  else Inr False) (\<lambda>down.
           bindE (if down then idx fw (foff + k + 1)
                  else bindE (idx fw (foff + k - 1)) (\<lambda>q. Inr (q + 1))) (\<lambda>x.
           bindE (eat_prefix dt x (x - k) alimit blimit) (\<lambda>(x, y).
           bindE (upd fw (foff + k) x) (\<lambda>fw'.
           bindE (if isodd \<and> k > rmid - d \<and> k < rmid + d then
                    bindE (idx rv (roff + k)) (\<lambda>r. bindE (idx fw' (foff + k)) (\<lambda>f. Inr (r \<le> f)))
                  else Inr False) (\<lambda>met. Inr (fw', x, met)))))))"

lemma forward_search_unfold:
  "forward_search dt mx aoffset boffset alimit blimit d rv fw k =
     (if k \<le> aoffset - boffset + d then
        bindE (fstep dt mx aoffset boffset alimit blimit d rv fw k) (\<lambda>(fw', x, met).
          if met then Inr (fw', Some (x, x - k))
          else forward_search dt mx aoffset boffset alimit blimit d rv fw' (k + 2))
      else Inr (fw, None))"
  by (subst forward_search.simps)
     (simp add: fstep_def Let_def bindE_assoc split_def cong: bindE_cong if_cong)

definition rstep ::
  "Interface \<Rightarrow> int \<Rightarrow> int \<Rightarrow> int \<Rightarrow> int \<Rightarrow> int \<Rightarrow> int \<Rightarrow> int list \<Rightarrow> int list \<Rightarrow> int
     \<Rightarrow> error + int list \<times> bool" where
  "rstep dt mx aoffset boffset alimit blimit d fw rv k =
     (let fmid = aoffset - boffset; rmid = alimit - blimit;
          foff = mx - fmid; roff = mx - rmid;
          isodd = ((rmid - fmid) AND 1 \<noteq> 0)
      in bindE (if k = rmid + d then Inr True
                  else if k \<noteq> rmid - d then
                    bindE (idx rv (roff + k - 1)) (\<lambda>p. bindE (idx rv (roff + k + 1)) (\<lambda>q. Inr (p < q)))
                  else Inr False) (\<lambda>up.
           bindE (if up then idx rv (roff + k - 1)
                  else bindE (idx rv (roff + k + 1)) (\<lambda>q. Inr (q - 1))) (\<lambda>x.
           bindE (eat_suffix dt aoffset boffset x (x - k)) (\<lambda>(x, y).
           bindE (upd rv (roff + k) x) (\<lambda>rv'.
           bindE (if \<not> isodd \<and> k \<ge> fmid - d \<and> k \<le> fmid + d then
                    bindE (idx rv' (roff + k)) (\<lambda>r. bindE (idx fw (foff + k)) (\<lambda>f. Inr (r \<le> f)))
                  else Inr False) (\<lambda>met. Inr (rv', met)))))))"

lemma reverse_search_unfold:
  "reverse_search dt mx aoffset boffset alimit blimit d fw rv k =
     (if k \<le> alimit - blimit + d then
        bindE (rstep dt mx aoffset boffset alimit blimit d fw rv k) (\<lambda>(rv', met).
          if met then bindE (idx fw (mx - (aoffset - boffset) + k)) (\<lambda>x. Inr (rv', Some (x, x - k)))
          else reverse_search dt mx aoffset boffset alimit blimit d fw rv' (k + 2))
      else Inr (rv, None))"
  by (subst reverse_search.simps)
     (simp add: rstep_def Let_def bindE_assoc split_def cong: bindE_cong if_cong)


text \<open>The end points the two searches keep for diagonal \<open>k\<close>.\<close>

definition fdiag :: "int \<Rightarrow> int \<Rightarrow> int \<Rightarrow> int list \<Rightarrow> int \<Rightarrow> int" where
  "fdiag mx aoffset boffset fw k = fw ! nat (mx - (aoffset - boffset) + k)"

definition rdiag :: "int \<Rightarrow> int \<Rightarrow> int \<Rightarrow> int list \<Rightarrow> int \<Rightarrow> int" where
  "rdiag mx alimit blimit rv k = rv ! nat (mx - (alimit - blimit) + k)"

definition fchoice :: "int \<Rightarrow> int \<Rightarrow> int \<Rightarrow> int \<Rightarrow> int list \<Rightarrow> int \<Rightarrow> int" where
  "fchoice mx aoffset boffset d fw k =
     (if k = aoffset - boffset - d \<or>
         (k \<noteq> aoffset - boffset + d \<and> fdiag mx aoffset boffset fw (k + 1) < fdiag mx aoffset boffset fw (k - 1))
      then fdiag mx aoffset boffset fw (k + 1) else fdiag mx aoffset boffset fw (k - 1) + 1)"

definition rchoice :: "int \<Rightarrow> int \<Rightarrow> int \<Rightarrow> int \<Rightarrow> int list \<Rightarrow> int \<Rightarrow> int" where
  "rchoice mx alimit blimit d rv k =
     (if k = alimit - blimit + d \<or>
         (k \<noteq> alimit - blimit - d \<and> rdiag mx alimit blimit rv (k - 1) < rdiag mx alimit blimit rv (k + 1))
      then rdiag mx alimit blimit rv (k - 1) else rdiag mx alimit blimit rv (k + 1) - 1)"

definition fmet :: "int \<Rightarrow> int \<Rightarrow> int \<Rightarrow> int \<Rightarrow> int \<Rightarrow> int \<Rightarrow> int list \<Rightarrow> int \<Rightarrow> int \<Rightarrow> bool" where
  "fmet mx aoffset boffset alimit blimit d rv k x \<longleftrightarrow>
     odd ((alimit - blimit) - (aoffset - boffset)) \<and> alimit - blimit - d < k \<and> k < alimit - blimit + d
       \<and> rdiag mx alimit blimit rv k \<le> x"

definition rmet :: "int \<Rightarrow> int \<Rightarrow> int \<Rightarrow> int \<Rightarrow> int \<Rightarrow> int \<Rightarrow> int list \<Rightarrow> int \<Rightarrow> int \<Rightarrow> bool" where
  "rmet mx aoffset boffset alimit blimit d fw k x \<longleftrightarrow>
     even ((alimit - blimit) - (aoffset - boffset)) \<and> aoffset - boffset - d \<le> k \<and> k \<le> aoffset - boffset + d
       \<and> x \<le> fdiag mx aoffset boffset fw k"

lemma and_one_odd: "((i::int) AND 1 \<noteq> 0) = odd i"
  by (simp add: and_one_eq odd_iff_mod_2_eq_one)

lemma fstep_eq:
  assumes "0 \<le> d" "d < mx" "mx + d < int (length fw)" "mx + 1 < int (length fw)"
    and "mx + d < int (length rv)"
    and "aoffset - boffset - d \<le> k" "k \<le> aoffset - boffset + d"
  shows "fstep dt mx aoffset boffset alimit blimit d rv fw k =
     bindE (eat_prefix dt (fchoice mx aoffset boffset d fw k) (fchoice mx aoffset boffset d fw k - k) alimit blimit)
       (\<lambda>(x, y). Inr (fw[nat (mx - (aoffset - boffset) + k) := x], x,
                      fmet mx aoffset boffset alimit blimit d rv k x))"
proof -
  have eq: "bindE r f = bindE r g" if "\<And>x y. f (x, y) = g (x, y)"
    for r :: "error + int \<times> int" and f g :: "int \<times> int \<Rightarrow> error + int list \<times> int \<times> bool"
    using that by (cases r) auto
  show ?thesis
    using assms
    unfolding fstep_def Let_def fchoice_def fmet_def fdiag_def rdiag_def
    by (auto simp: idx_def upd_def and_one_odd algebra_simps intro!: eq)
qed


lemma rstep_eq:
  assumes "0 \<le> d" "d < mx" "mx + d < int (length rv)" "mx + d < int (length fw)"
    and "alimit - blimit - d \<le> k" "k \<le> alimit - blimit + d"
  shows "rstep dt mx aoffset boffset alimit blimit d fw rv k =
     bindE (eat_suffix dt aoffset boffset (rchoice mx alimit blimit d rv k) (rchoice mx alimit blimit d rv k - k))
       (\<lambda>(x, y). Inr (rv[nat (mx - (alimit - blimit) + k) := x],
                      rmet mx aoffset boffset alimit blimit d fw k x))"
proof -
  have eq: "bindE r f = bindE r g" if "\<And>x y. f (x, y) = g (x, y)"
    for r :: "error + int \<times> int" and f g :: "int \<times> int \<Rightarrow> error + int list \<times> bool"
    using that by (cases r) auto
  show ?thesis
    using assms
    unfolding rstep_def Let_def rchoice_def rmet_def fdiag_def rdiag_def
    by (auto simp: idx_def upd_def and_one_odd algebra_simps intro!: eq)
qed

lemma eat_prefix_step:
  "aoffset < alimit \<Longrightarrow> boffset < blimit \<Longrightarrow> Equal dt aoffset boffset = Inr True \<Longrightarrow>
   eat_prefix dt aoffset boffset alimit blimit = eat_prefix dt (aoffset + 1) (boffset + 1) alimit blimit"
  by (subst eat_prefix.simps) simp

lemma eat_prefix_differ:
  "aoffset < alimit \<Longrightarrow> boffset < blimit \<Longrightarrow> Equal dt aoffset boffset = Inr False \<Longrightarrow>
   eat_prefix dt aoffset boffset alimit blimit = Inr (aoffset, boffset)"
  by (subst eat_prefix.simps) simp

lemma eat_prefix_panic:
  "aoffset < alimit \<Longrightarrow> boffset < blimit \<Longrightarrow> Equal dt aoffset boffset = Inl e \<Longrightarrow>
   eat_prefix dt aoffset boffset alimit blimit = Inl e"
  by (subst eat_prefix.simps) simp

lemma eat_suffix_step:
  "aoffset < alimit \<Longrightarrow> boffset < blimit \<Longrightarrow> Equal dt (alimit - 1) (blimit - 1) = Inr True \<Longrightarrow>
   eat_suffix dt aoffset boffset alimit blimit = eat_suffix dt aoffset boffset (alimit - 1) (blimit - 1)"
  by (subst eat_suffix.simps) simp

lemma eat_suffix_differ:
  "aoffset < alimit \<Longrightarrow> boffset < blimit \<Longrightarrow> Equal dt (alimit - 1) (blimit - 1) = Inr False \<Longrightarrow>
   eat_suffix dt aoffset boffset alimit blimit = Inr (alimit, blimit)"
  by (subst eat_suffix.simps) simp

lemma eat_suffix_panic:
  "aoffset < alimit \<Longrightarrow> boffset < blimit \<Longrightarrow> Equal dt (alimit - 1) (blimit - 1) = Inl e \<Longrightarrow>
   eat_suffix dt aoffset boffset alimit blimit = Inl e"
  by (subst eat_suffix.simps) simp

text \<open>A panic of a trimming loop is a panic of \<open>Equal\<close>.\<close>

lemma eat_prefix_error:
  "eat_prefix dt aoffset boffset alimit blimit = Inl e \<Longrightarrow> \<exists>i j. Equal dt i j = Inl e"
proof (induction dt aoffset boffset alimit blimit rule: eat_prefix.induct)
  case (1 dt aoffset boffset alimit blimit)
  show ?case
  proof (cases "aoffset < alimit \<and> boffset < blimit")
    case False
    with "1.prems" show ?thesis by (simp add: eat_prefix_stop)
  next
    case True
    show ?thesis
    proof (cases "Equal dt aoffset boffset")
      case (Inl e')
      with True "1.prems" show ?thesis by (auto simp: eat_prefix_panic)
    next
      case (Inr v)
      show ?thesis
      proof (cases v)
        case True
        with \<open>aoffset < alimit \<and> boffset < blimit\<close> Inr "1.prems" "1.IH" show ?thesis
          by (simp add: eat_prefix_step)
      next
        case False
        with \<open>aoffset < alimit \<and> boffset < blimit\<close> Inr "1.prems" show ?thesis
          by (simp add: eat_prefix_differ)
      qed
    qed
  qed
qed

lemma eat_suffix_error:
  "eat_suffix dt aoffset boffset alimit blimit = Inl e \<Longrightarrow> \<exists>i j. Equal dt i j = Inl e"
proof (induction dt aoffset boffset alimit blimit rule: eat_suffix.induct)
  case (1 dt aoffset boffset alimit blimit)
  show ?case
  proof (cases "aoffset < alimit \<and> boffset < blimit")
    case False
    with "1.prems" show ?thesis by (simp add: eat_suffix_stop)
  next
    case True
    show ?thesis
    proof (cases "Equal dt (alimit - 1) (blimit - 1)")
      case (Inl e')
      with True "1.prems" show ?thesis by (auto simp: eat_suffix_panic)
    next
      case (Inr v)
      show ?thesis
      proof (cases v)
        case True
        with \<open>aoffset < alimit \<and> boffset < blimit\<close> Inr "1.prems" "1.IH" show ?thesis
          by (simp add: eat_suffix_step)
      next
        case False
        with \<open>aoffset < alimit \<and> boffset < blimit\<close> Inr "1.prems" show ?thesis
          by (simp add: eat_suffix_differ)
      qed
    qed
  qed
qed

text \<open>
  Where \<open>Equal\<close> answers on the whole rectangle still ahead, the trimming loops return, having
  moved along the diagonal.
\<close>

lemma eat_prefix_total:
  assumes "\<forall>i j. aoffset \<le> i \<and> i < alimit \<and> boffset \<le> j \<and> j < blimit \<longrightarrow> (\<exists>v. Equal dt i j = Inr v)"
  shows "\<exists>x. aoffset \<le> x \<and> eat_prefix dt aoffset boffset alimit blimit = Inr (x, boffset + (x - aoffset))"
  using assms
proof (induction dt aoffset boffset alimit blimit rule: eat_prefix.induct)
  case (1 dt aoffset boffset alimit blimit)
  show ?case
  proof (cases "aoffset < alimit \<and> boffset < blimit")
    case False
    then show ?thesis by (auto simp: eat_prefix_stop)
  next
    case True
    with "1.prems" obtain v where v: "Equal dt aoffset boffset = Inr v" by force
    show ?thesis
    proof (cases v)
      case False
      with True v show ?thesis by (auto simp: eat_prefix_differ)
    next
      case vt: True
      have "\<exists>x. aoffset + 1 \<le> x \<and>
          eat_prefix dt (aoffset + 1) (boffset + 1) alimit blimit = Inr (x, boffset + 1 + (x - (aoffset + 1)))"
        using "1.IH"[OF True v] vt "1.prems" by simp
      then obtain x where "aoffset + 1 \<le> x"
        "eat_prefix dt (aoffset + 1) (boffset + 1) alimit blimit = Inr (x, boffset + 1 + (x - (aoffset + 1)))"
        by blast
      with True v vt show ?thesis
        by (intro exI[of _ x]) (simp add: eat_prefix_step)
    qed
  qed
qed

lemma eat_suffix_total:
  assumes "\<forall>i j. aoffset \<le> i \<and> i < alimit \<and> boffset \<le> j \<and> j < blimit \<longrightarrow> (\<exists>v. Equal dt i j = Inr v)"
  shows "\<exists>x. x \<le> alimit \<and> eat_suffix dt aoffset boffset alimit blimit = Inr (x, blimit - (alimit - x))"
  using assms
proof (induction dt aoffset boffset alimit blimit rule: eat_suffix.induct)
  case (1 dt aoffset boffset alimit blimit)
  show ?case
  proof (cases "aoffset < alimit \<and> boffset < blimit")
    case False
    then show ?thesis by (auto simp: eat_suffix_stop)
  next
    case True
    with "1.prems" obtain v where v: "Equal dt (alimit - 1) (blimit - 1) = Inr v" by force
    show ?thesis
    proof (cases v)
      case False
      with True v show ?thesis by (auto simp: eat_suffix_differ)
    next
      case vt: True
      have "\<exists>x. x \<le> alimit - 1 \<and>
          eat_suffix dt aoffset boffset (alimit - 1) (blimit - 1) = Inr (x, blimit - 1 - (alimit - 1 - x))"
        using "1.IH"[OF _ v] True vt "1.prems" by simp
      then obtain x where "x \<le> alimit - 1"
        "eat_suffix dt aoffset boffset (alimit - 1) (blimit - 1) = Inr (x, blimit - 1 - (alimit - 1 - x))"
        by blast
      with True v vt show ?thesis
        by (intro exI[of _ x]) (simp add: eat_suffix_step)
    qed
  qed
qed

section \<open>Invariants of the two searches\<close>

text \<open>
  What every recorded end point satisfies after radius \<open>d\<close>: a forward end point \<open>(x, x - k)\<close> lies
  at or beyond the start corner and at least \<open>d\<close> steps from it; a reverse end point lies at or
  before the end corner and at least \<open>d\<close> steps from it. Radius \<open>-1\<close> stands for the two entries
  written before the loop.
\<close>

definition fentry :: "int \<Rightarrow> int \<Rightarrow> int \<Rightarrow> int \<Rightarrow> int \<Rightarrow> bool" where
  "fentry aoffset boffset d k x \<longleftrightarrow>
     aoffset \<le> x \<and> (0 \<le> d \<longrightarrow> boffset \<le> x - k) \<and> aoffset + boffset + d \<le> 2 * x - k"

definition rentry :: "int \<Rightarrow> int \<Rightarrow> int \<Rightarrow> int \<Rightarrow> int \<Rightarrow> bool" where
  "rentry alimit blimit d k x \<longleftrightarrow>
     x \<le> alimit \<and> (0 \<le> d \<longrightarrow> x - k \<le> blimit) \<and> 2 * x - k \<le> alimit + blimit - d"

definition fdom :: "int \<Rightarrow> int \<Rightarrow> int \<Rightarrow> int \<Rightarrow> bool" where
  "fdom aoffset boffset d k \<longleftrightarrow>
     (aoffset - boffset - d \<le> k \<and> k \<le> aoffset - boffset + d \<and> even (k - (aoffset - boffset) - d))
     \<or> (d = - 1 \<and> k = aoffset - boffset + 1)"

definition rdom :: "int \<Rightarrow> int \<Rightarrow> int \<Rightarrow> int \<Rightarrow> bool" where
  "rdom alimit blimit d k \<longleftrightarrow>
     (alimit - blimit - d \<le> k \<and> k \<le> alimit - blimit + d \<and> even (k - (alimit - blimit) - d))
     \<or> (d = - 1 \<and> k = alimit - blimit - 1)"

definition finv :: "int \<Rightarrow> int \<Rightarrow> int \<Rightarrow> int \<Rightarrow> int list \<Rightarrow> bool" where
  "finv mx aoffset boffset d fw \<longleftrightarrow>
     (\<forall>k. fdom aoffset boffset d k \<longrightarrow> fentry aoffset boffset d k (fdiag mx aoffset boffset fw k))"

definition rinv :: "int \<Rightarrow> int \<Rightarrow> int \<Rightarrow> int \<Rightarrow> int list \<Rightarrow> bool" where
  "rinv mx alimit blimit d rv \<longleftrightarrow>
     (\<forall>k. rdom alimit blimit d k \<longrightarrow> rentry alimit blimit d k (rdiag mx alimit blimit rv k))"

lemma fchoice_entry:
  assumes "finv mx aoffset boffset (d - 1) fw" "0 \<le> d"
    and "aoffset - boffset - d \<le> k" "k \<le> aoffset - boffset + d" "even (k - (aoffset - boffset) - d)"
  shows "fentry aoffset boffset d k (fchoice mx aoffset boffset d fw k)"
proof (cases "k = aoffset - boffset - d \<or>
         (k \<noteq> aoffset - boffset + d \<and> fdiag mx aoffset boffset fw (k + 1) < fdiag mx aoffset boffset fw (k - 1))")
  case True
  have c: "fchoice mx aoffset boffset d fw k = fdiag mx aoffset boffset fw (k + 1)"
    by (simp only: fchoice_def True if_True)
  have "k + 1 \<le> aoffset - boffset + (d - 1) \<or> d = 0"
  proof (cases "k = aoffset - boffset + d")
    case True
    with \<open>k = aoffset - boffset - d \<or> _\<close> show ?thesis by auto
  next
    case False
    with assms(4) have "k < aoffset - boffset + d" by simp
    moreover have "k \<noteq> aoffset - boffset + d - 1" using assms(5) by auto
    ultimately show ?thesis by simp
  qed
  then have "fdom aoffset boffset (d - 1) (k + 1)"
    using assms(2-5) by (auto simp: fdom_def)
  then have "fentry aoffset boffset (d - 1) (k + 1) (fdiag mx aoffset boffset fw (k + 1))"
    using assms(1) by (simp add: finv_def)
  then show ?thesis
    unfolding c using assms(2-4) by (auto simp: fentry_def)
next
  case False
  have c: "fchoice mx aoffset boffset d fw k = fdiag mx aoffset boffset fw (k - 1) + 1"
    by (simp only: fchoice_def False if_False)
  from False have "k \<noteq> aoffset - boffset - d" by simp
  moreover have "k \<noteq> aoffset - boffset - d + 1" using assms(5) by auto
  ultimately have "aoffset - boffset - (d - 1) \<le> k - 1" "1 \<le> d" using assms(3,4) by auto
  then have "fdom aoffset boffset (d - 1) (k - 1)"
    using assms(2-5) by (auto simp: fdom_def)
  then have "fentry aoffset boffset (d - 1) (k - 1) (fdiag mx aoffset boffset fw (k - 1))"
    using assms(1) by (simp add: finv_def)
  then show ?thesis
    unfolding c using \<open>1 \<le> d\<close> by (auto simp: fentry_def)
qed

lemma rchoice_entry:
  assumes "rinv mx alimit blimit (d - 1) rv" "0 \<le> d"
    and "alimit - blimit - d \<le> k" "k \<le> alimit - blimit + d" "even (k - (alimit - blimit) - d)"
  shows "rentry alimit blimit d k (rchoice mx alimit blimit d rv k)"
proof (cases "k = alimit - blimit + d \<or>
         (k \<noteq> alimit - blimit - d \<and> rdiag mx alimit blimit rv (k - 1) < rdiag mx alimit blimit rv (k + 1))")
  case True
  have c: "rchoice mx alimit blimit d rv k = rdiag mx alimit blimit rv (k - 1)"
    by (simp only: rchoice_def True if_True)
  have "alimit - blimit - (d - 1) \<le> k - 1 \<or> d = 0"
  proof (cases "k = alimit - blimit - d")
    case True
    with \<open>k = alimit - blimit + d \<or> _\<close> show ?thesis by auto
  next
    case False
    with assms(3) have "alimit - blimit - d < k" by simp
    moreover have "k \<noteq> alimit - blimit - d + 1" using assms(5) by auto
    ultimately show ?thesis by simp
  qed
  then have "rdom alimit blimit (d - 1) (k - 1)"
    using assms(2-5) by (auto simp: rdom_def)
  then have "rentry alimit blimit (d - 1) (k - 1) (rdiag mx alimit blimit rv (k - 1))"
    using assms(1) by (simp add: rinv_def)
  then show ?thesis
    unfolding c using assms(2-4) by (auto simp: rentry_def)
next
  case False
  have c: "rchoice mx alimit blimit d rv k = rdiag mx alimit blimit rv (k + 1) - 1"
    by (simp only: rchoice_def False if_False)
  from False have "k \<noteq> alimit - blimit + d" by simp
  moreover have "k \<noteq> alimit - blimit + d - 1" using assms(5) by auto
  ultimately have "k + 1 \<le> alimit - blimit + (d - 1)" "1 \<le> d" using assms(3,4) by auto
  then have "rdom alimit blimit (d - 1) (k + 1)"
    using assms(2-5) by (auto simp: rdom_def)
  then have "rentry alimit blimit (d - 1) (k + 1) (rdiag mx alimit blimit rv (k + 1))"
    using assms(1) by (simp add: rinv_def)
  then show ?thesis
    unfolding c using \<open>1 \<le> d\<close> by (auto simp: rentry_def)
qed


lemma fdiag_update_other:
  "0 \<le> mx - (aoffset - boffset) + j \<Longrightarrow> 0 \<le> mx - (aoffset - boffset) + k \<Longrightarrow> j \<noteq> k \<Longrightarrow>
   fdiag mx aoffset boffset (fw[nat (mx - (aoffset - boffset) + k) := x]) j = fdiag mx aoffset boffset fw j"
  by (simp add: fdiag_def)

lemma fdiag_update_same:
  "0 \<le> mx - (aoffset - boffset) + k \<Longrightarrow> mx - (aoffset - boffset) + k < int (length fw) \<Longrightarrow>
   fdiag mx aoffset boffset (fw[nat (mx - (aoffset - boffset) + k) := x]) k = x"
  by (simp add: fdiag_def)

lemma rdiag_update_other:
  "0 \<le> mx - (alimit - blimit) + j \<Longrightarrow> 0 \<le> mx - (alimit - blimit) + k \<Longrightarrow> j \<noteq> k \<Longrightarrow>
   rdiag mx alimit blimit (rv[nat (mx - (alimit - blimit) + k) := x]) j = rdiag mx alimit blimit rv j"
  by (simp add: rdiag_def)

lemma rdiag_update_same:
  "0 \<le> mx - (alimit - blimit) + k \<Longrightarrow> mx - (alimit - blimit) + k < int (length rv) \<Longrightarrow>
   rdiag mx alimit blimit (rv[nat (mx - (alimit - blimit) + k) := x]) k = x"
  by (simp add: rdiag_def)

lemma fentry_mono: "fentry aoffset boffset d k x \<Longrightarrow> x \<le> x' \<Longrightarrow> fentry aoffset boffset d k x'"
  by (auto simp: fentry_def)

lemma rentry_mono: "rentry alimit blimit d k x \<Longrightarrow> x' \<le> x \<Longrightarrow> rentry alimit blimit d k x'"
  by (auto simp: rentry_def)

text \<open>The forward loop of radius \<open>d\<close>, started at any of its diagonals.\<close>

lemma forward_search_inv:
  assumes "0 \<le> d" "d < mx" "mx + d < int (length fw)" "mx + 1 < int (length fw)" "mx + d < int (length rv)"
    and "\<forall>i j. aoffset \<le> i \<and> i < alimit \<and> boffset \<le> j \<and> j < blimit \<longrightarrow> (\<exists>v. Equal dt i j = Inr v)"
    and "aoffset - boffset - d \<le> k" "even (k - (aoffset - boffset) - d)"
    and "finv mx aoffset boffset (d - 1) fw"
    and "\<forall>j. aoffset - boffset - d \<le> j \<and> j < k \<and> even (j - (aoffset - boffset) - d)
           \<longrightarrow> fentry aoffset boffset d j (fdiag mx aoffset boffset fw j)"
  shows "\<exists>fw' r. forward_search dt mx aoffset boffset alimit blimit d rv fw k = Inr (fw', r)
      \<and> length fw' = length fw
      \<and> (\<forall>i. i < nat (mx - (aoffset - boffset) + k) \<longrightarrow> fw' ! i = fw ! i)
      \<and> (r = None \<longrightarrow> finv mx aoffset boffset d fw'
           \<and> (\<forall>j. k \<le> j \<and> j \<le> aoffset - boffset + d \<and> even (j - (aoffset - boffset) - d)
                 \<longrightarrow> \<not> fmet mx aoffset boffset alimit blimit d rv j (fdiag mx aoffset boffset fw' j)))
      \<and> (\<forall>p. r = Some p \<longrightarrow> aoffset \<le> fst p \<and> boffset \<le> snd p)"
  using assms
proof (induction "nat (aoffset - boffset + d + 2 - k)" arbitrary: fw k rule: less_induct)
  case less
  note room = less.prems(1-5) and tot = less.prems(6) and kr = less.prems(7,8)
    and prev = less.prems(9) and cur = less.prems(10)
  show ?case
  proof (cases "k \<le> aoffset - boffset + d")
    case False
    have "finv mx aoffset boffset d fw"
      unfolding finv_def fdom_def using cur False room(1) by auto
    with False show ?thesis
      by (subst forward_search_unfold) auto
  next
    case True
    define x0 where "x0 = fchoice mx aoffset boffset d fw k"
    define i where "i = nat (mx - (aoffset - boffset) + k)"
    have e0: "fentry aoffset boffset d k x0"
      unfolding x0_def using prev room(1) kr True by (intro fchoice_entry)
    then have "aoffset \<le> x0" "boffset \<le> x0 - k" using room(1) by (auto simp: fentry_def)
    then have "\<forall>i j. x0 \<le> i \<and> i < alimit \<and> x0 - k \<le> j \<and> j < blimit \<longrightarrow> (\<exists>v. Equal dt i j = Inr v)"
      using tot by auto
    from eat_prefix_total[OF this] obtain x where x: "x0 \<le> x"
      "eat_prefix dt x0 (x0 - k) alimit blimit = Inr (x, x0 - k + (x - x0))" by blast
    have ex: "fentry aoffset boffset d k x" using e0 x(1) by (rule fentry_mono)
    have step: "fstep dt mx aoffset boffset alimit blimit d rv fw k =
        Inr (fw[i := x], x, fmet mx aoffset boffset alimit blimit d rv k x)"
      using room kr(1) True x(2) by (simp add: fstep_eq x0_def[symmetric] i_def)
    have ik: "0 \<le> mx - (aoffset - boffset) + k" "mx - (aoffset - boffset) + k < int (length fw)"
      using room kr(1) True by auto
    show ?thesis
    proof (cases "fmet mx aoffset boffset alimit blimit d rv k x")
      case met: True
      have "forward_search dt mx aoffset boffset alimit blimit d rv fw k = Inr (fw[i := x], Some (x, x - k))"
        using True step met by (subst forward_search_unfold) simp
      then show ?thesis using ex room(1) by (auto simp: i_def fentry_def)
    next
      case nomet: False
      have unf: "forward_search dt mx aoffset boffset alimit blimit d rv fw k =
          forward_search dt mx aoffset boffset alimit blimit d rv (fw[i := x]) (k + 2)"
        using True step nomet by (subst forward_search_unfold) simp
      have prev': "finv mx aoffset boffset (d - 1) (fw[i := x])"
        unfolding finv_def
      proof (intro allI impI)
        fix j assume j: "fdom aoffset boffset (d - 1) j"
        then have "j \<noteq> k" using kr(2) room(1) True kr(1) by (auto simp: fdom_def)
        moreover have "0 \<le> mx - (aoffset - boffset) + j" using j room by (auto simp: fdom_def)
        ultimately have "fdiag mx aoffset boffset (fw[i := x]) j = fdiag mx aoffset boffset fw j"
          unfolding i_def using ik(1) by (intro fdiag_update_other)
        with prev j show "fentry aoffset boffset (d - 1) j (fdiag mx aoffset boffset (fw[i := x]) j)"
          by (simp add: finv_def)
      qed
      have cur': "\<forall>j. aoffset - boffset - d \<le> j \<and> j < k + 2 \<and> even (j - (aoffset - boffset) - d)
           \<longrightarrow> fentry aoffset boffset d j (fdiag mx aoffset boffset (fw[i := x]) j)"
      proof (intro allI impI)
        fix j assume j: "aoffset - boffset - d \<le> j \<and> j < k + 2 \<and> even (j - (aoffset - boffset) - d)"
        show "fentry aoffset boffset d j (fdiag mx aoffset boffset (fw[i := x]) j)"
        proof (cases "j = k")
          case True
          then show ?thesis using ex ik by (simp add: i_def fdiag_update_same)
        next
          case False
          have "j \<noteq> k + 1" using j kr(2) by auto
          with False j have jk: "j < k" by simp
          have "0 \<le> mx - (aoffset - boffset) + j" using j room by auto
          then have "fdiag mx aoffset boffset (fw[i := x]) j = fdiag mx aoffset boffset fw j"
            unfolding i_def using ik(1) False by (intro fdiag_update_other)
          with cur j jk show ?thesis by simp
        qed
      qed
      have "nat (aoffset - boffset + d + 2 - (k + 2)) < nat (aoffset - boffset + d + 2 - k)"
        using True by simp
      from less.hyps[OF this room(1,2) _ _ room(5) tot _ _ prev' cur']
      obtain fw' r where r: "forward_search dt mx aoffset boffset alimit blimit d rv (fw[i := x]) (k + 2) = Inr (fw', r)"
          "length fw' = length (fw[i := x])"
          "\<forall>i'. i' < nat (mx - (aoffset - boffset) + (k + 2)) \<longrightarrow> fw' ! i' = (fw[i := x]) ! i'"
          "r = None \<longrightarrow> finv mx aoffset boffset d fw'
           \<and> (\<forall>j. k + 2 \<le> j \<and> j \<le> aoffset - boffset + d \<and> even (j - (aoffset - boffset) - d)
                 \<longrightarrow> \<not> fmet mx aoffset boffset alimit blimit d rv j (fdiag mx aoffset boffset fw' j))"
          "\<forall>p. r = Some p \<longrightarrow> aoffset \<le> fst p \<and> boffset \<le> snd p"
        using room kr by auto
      have frame: "\<forall>i'. i' < nat (mx - (aoffset - boffset) + k) \<longrightarrow> fw' ! i' = fw ! i'"
        using r(3) ik by (auto simp: i_def)
      have "fw' ! i = x" using r(3) ik by (auto simp: i_def)
      then have xk: "fdiag mx aoffset boffset fw' k = x" by (simp add: fdiag_def i_def)
      have nm: "\<not> fmet mx aoffset boffset alimit blimit d rv j (fdiag mx aoffset boffset fw' j)"
        if "k \<le> j \<and> j \<le> aoffset - boffset + d \<and> even (j - (aoffset - boffset) - d)" "r = None" for j
      proof (cases "j = k")
        case True
        with nomet xk show ?thesis by simp
      next
        case False
        have "j \<noteq> k + 1" using that kr(2) by auto
        with False that have "k + 2 \<le> j" by simp
        with that r(4) show ?thesis by simp
      qed
      show ?thesis
        using unf r(1,2,4,5) frame nm by auto
    qed
  qed
qed


text \<open>The reverse loop of radius \<open>d\<close>, started at any of its diagonals.\<close>

lemma reverse_search_inv:
  assumes "0 \<le> d" "d < mx" "mx + d < int (length rv)" "mx + d < int (length fw)"
    and "\<forall>i j. aoffset \<le> i \<and> i < alimit \<and> boffset \<le> j \<and> j < blimit \<longrightarrow> (\<exists>v. Equal dt i j = Inr v)"
    and "alimit - blimit - d \<le> k" "even (k - (alimit - blimit) - d)"
    and "rinv mx alimit blimit (d - 1) rv"
    and "\<forall>j. alimit - blimit - d \<le> j \<and> j < k \<and> even (j - (alimit - blimit) - d)
           \<longrightarrow> rentry alimit blimit d j (rdiag mx alimit blimit rv j)"
    and "finv mx aoffset boffset d fw"
  shows "\<exists>rv' r. reverse_search dt mx aoffset boffset alimit blimit d fw rv k = Inr (rv', r)
      \<and> length rv' = length rv
      \<and> (\<forall>i. i < nat (mx - (alimit - blimit) + k) \<longrightarrow> rv' ! i = rv ! i)
      \<and> (r = None \<longrightarrow> rinv mx alimit blimit d rv'
           \<and> (\<forall>j. k \<le> j \<and> j \<le> alimit - blimit + d \<and> even (j - (alimit - blimit) - d)
                 \<longrightarrow> \<not> rmet mx aoffset boffset alimit blimit d fw j (rdiag mx alimit blimit rv' j)))
      \<and> (\<forall>p. r = Some p \<longrightarrow> aoffset \<le> fst p \<and> boffset \<le> snd p)"
  using assms
proof (induction "nat (alimit - blimit + d + 2 - k)" arbitrary: rv k rule: less_induct)
  case less
  note room = less.prems(1-4) and tot = less.prems(5) and kr = less.prems(6,7)
    and prev = less.prems(8) and cur = less.prems(9) and fin = less.prems(10)
  show ?case
  proof (cases "k \<le> alimit - blimit + d")
    case False
    have "rinv mx alimit blimit d rv"
      unfolding rinv_def rdom_def using cur False room(1) by auto
    with False show ?thesis
      by (subst reverse_search_unfold) auto
  next
    case True
    define x0 where "x0 = rchoice mx alimit blimit d rv k"
    define i where "i = nat (mx - (alimit - blimit) + k)"
    have e0: "rentry alimit blimit d k x0"
      unfolding x0_def using prev room(1) kr True by (intro rchoice_entry)
    then have "x0 \<le> alimit" "x0 - k \<le> blimit" using room(1) by (auto simp: rentry_def)
    then have "\<forall>i j. aoffset \<le> i \<and> i < x0 \<and> boffset \<le> j \<and> j < x0 - k \<longrightarrow> (\<exists>v. Equal dt i j = Inr v)"
      using tot by auto
    from eat_suffix_total[OF this] obtain x where x: "x \<le> x0"
      "eat_suffix dt aoffset boffset x0 (x0 - k) = Inr (x, x0 - k - (x0 - x))" by blast
    have ex: "rentry alimit blimit d k x" using e0 x(1) by (rule rentry_mono)
    have step: "rstep dt mx aoffset boffset alimit blimit d fw rv k =
        Inr (rv[i := x], rmet mx aoffset boffset alimit blimit d fw k x)"
      using room kr(1) True x(2) by (simp add: rstep_eq x0_def[symmetric] i_def)
    have ik: "0 \<le> mx - (alimit - blimit) + k" "mx - (alimit - blimit) + k < int (length rv)"
      using room kr(1) True by auto
    show ?thesis
    proof (cases "rmet mx aoffset boffset alimit blimit d fw k x")
      case met: True
      then have "idx fw (mx - (aoffset - boffset) + k) = Inr (fdiag mx aoffset boffset fw k)"
        using room by (auto simp: rmet_def idx_def fdiag_def)
      then have "reverse_search dt mx aoffset boffset alimit blimit d fw rv k =
          Inr (rv[i := x], Some (fdiag mx aoffset boffset fw k, fdiag mx aoffset boffset fw k - k))"
        using True step met by (subst reverse_search_unfold) simp
      moreover have "fdom aoffset boffset d k"
        using met kr(2) unfolding rmet_def fdom_def by (auto; presburger)
      then have "fentry aoffset boffset d k (fdiag mx aoffset boffset fw k)"
        using fin by (simp add: finv_def)
      ultimately show ?thesis using room(1) by (auto simp: i_def fentry_def)
    next
      case nomet: False
      have unf: "reverse_search dt mx aoffset boffset alimit blimit d fw rv k =
          reverse_search dt mx aoffset boffset alimit blimit d fw (rv[i := x]) (k + 2)"
        using True step nomet by (subst reverse_search_unfold) simp
      have prev': "rinv mx alimit blimit (d - 1) (rv[i := x])"
        unfolding rinv_def
      proof (intro allI impI)
        fix j assume j: "rdom alimit blimit (d - 1) j"
        then have "j \<noteq> k" using kr(2) room(1) True kr(1) by (auto simp: rdom_def)
        moreover have "0 \<le> mx - (alimit - blimit) + j" using j room by (auto simp: rdom_def)
        ultimately have "rdiag mx alimit blimit (rv[i := x]) j = rdiag mx alimit blimit rv j"
          unfolding i_def using ik(1) by (intro rdiag_update_other)
        with prev j show "rentry alimit blimit (d - 1) j (rdiag mx alimit blimit (rv[i := x]) j)"
          by (simp add: rinv_def)
      qed
      have cur': "\<forall>j. alimit - blimit - d \<le> j \<and> j < k + 2 \<and> even (j - (alimit - blimit) - d)
           \<longrightarrow> rentry alimit blimit d j (rdiag mx alimit blimit (rv[i := x]) j)"
      proof (intro allI impI)
        fix j assume j: "alimit - blimit - d \<le> j \<and> j < k + 2 \<and> even (j - (alimit - blimit) - d)"
        show "rentry alimit blimit d j (rdiag mx alimit blimit (rv[i := x]) j)"
        proof (cases "j = k")
          case True
          then show ?thesis using ex ik by (simp add: i_def rdiag_update_same)
        next
          case False
          have "j \<noteq> k + 1" using j kr(2) by auto
          with False j have jk: "j < k" by simp
          have "0 \<le> mx - (alimit - blimit) + j" using j room by auto
          then have "rdiag mx alimit blimit (rv[i := x]) j = rdiag mx alimit blimit rv j"
            unfolding i_def using ik(1) False by (intro rdiag_update_other)
          with cur j jk show ?thesis by simp
        qed
      qed
      have "nat (alimit - blimit + d + 2 - (k + 2)) < nat (alimit - blimit + d + 2 - k)"
        using True by simp
      from less.hyps[OF this room(1,2) _ _ tot _ _ prev' cur' fin]
      obtain rv' r where r: "reverse_search dt mx aoffset boffset alimit blimit d fw (rv[i := x]) (k + 2) = Inr (rv', r)"
          "length rv' = length (rv[i := x])"
          "\<forall>i'. i' < nat (mx - (alimit - blimit) + (k + 2)) \<longrightarrow> rv' ! i' = (rv[i := x]) ! i'"
          "r = None \<longrightarrow> rinv mx alimit blimit d rv'
           \<and> (\<forall>j. k + 2 \<le> j \<and> j \<le> alimit - blimit + d \<and> even (j - (alimit - blimit) - d)
                 \<longrightarrow> \<not> rmet mx aoffset boffset alimit blimit d fw j (rdiag mx alimit blimit rv' j))"
          "\<forall>p. r = Some p \<longrightarrow> aoffset \<le> fst p \<and> boffset \<le> snd p"
        using room kr by auto
      have frame: "\<forall>i'. i' < nat (mx - (alimit - blimit) + k) \<longrightarrow> rv' ! i' = rv ! i'"
        using r(3) ik by (auto simp: i_def)
      have "rv' ! i = x" using r(3) ik by (auto simp: i_def)
      then have xk: "rdiag mx alimit blimit rv' k = x" by (simp add: rdiag_def i_def)
      have nm: "\<not> rmet mx aoffset boffset alimit blimit d fw j (rdiag mx alimit blimit rv' j)"
        if "k \<le> j \<and> j \<le> alimit - blimit + d \<and> even (j - (alimit - blimit) - d)" "r = None" for j
      proof (cases "j = k")
        case True
        with nomet xk show ?thesis by simp
      next
        case False
        have "j \<noteq> k + 1" using that kr(2) by auto
        with False that have "k + 2 \<le> j" by simp
        with that r(4) show ?thesis by simp
      qed
      show ?thesis
        using unf r(1,2,4,5) frame nm by auto
    qed
  qed
qed


text \<open>
  When both loops of radius \<open>d\<close> end without a meeting, \<open>2 * d\<close> is less than the sum of the
  two dimensions: otherwise an end diagonal of one loop carries end points that have met.
\<close>

lemma no_meeting_small_radius:
  assumes rect: "aoffset < alimit" "boffset < blimit" and d: "0 \<le> d"
    and fi: "finv mx aoffset boffset d fw" and rp: "rinv mx alimit blimit (d - 1) rv"
    and ri: "rinv mx alimit blimit d rv'"
    and nf: "\<forall>j. aoffset - boffset - d \<le> j \<and> j \<le> aoffset - boffset + d \<and> even (j - (aoffset - boffset) - d)
                 \<longrightarrow> \<not> fmet mx aoffset boffset alimit blimit d rv j (fdiag mx aoffset boffset fw j)"
    and nr: "\<forall>j. alimit - blimit - d \<le> j \<and> j \<le> alimit - blimit + d \<and> even (j - (alimit - blimit) - d)
                 \<longrightarrow> \<not> rmet mx aoffset boffset alimit blimit d fw j (rdiag mx alimit blimit rv' j)"
  shows "2 * d < (alimit - aoffset) + (blimit - boffset)"
proof (rule ccontr)
  assume "\<not> 2 * d < (alimit - aoffset) + (blimit - boffset)"
  then have big: "(alimit - aoffset) + (blimit - boffset) \<le> 2 * d" by simp
  define delta where "delta = (alimit - blimit) - (aoffset - boffset)"
  show False
  proof (cases "odd delta")
    case True
    then have big': "(alimit - aoffset) + (blimit - boffset) \<le> 2 * d - 1"
      using big unfolding delta_def by presburger
    define k where "k = (if 0 \<le> delta then aoffset - boffset + d else aoffset - boffset - d)"
    have kf: "aoffset - boffset - d \<le> k" "k \<le> aoffset - boffset + d" "even (k - (aoffset - boffset) - d)"
      using d by (auto simp: k_def)
    have kr: "alimit - blimit - (d - 1) \<le> k" "k \<le> alimit - blimit + (d - 1)"
      using True big' rect unfolding k_def delta_def by (auto split: if_splits) (presburger+)?
    have kp: "even (k - (alimit - blimit) - (d - 1))"
      using True unfolding k_def delta_def by (auto split: if_splits) (presburger+)?
    have "fentry aoffset boffset d k (fdiag mx aoffset boffset fw k)"
      using fi kf by (simp add: finv_def fdom_def)
    moreover have "rentry alimit blimit (d - 1) k (rdiag mx alimit blimit rv k)"
      using rp kr kp by (simp add: rinv_def rdom_def)
    ultimately have "rdiag mx alimit blimit rv k \<le> fdiag mx aoffset boffset fw k"
      using big' by (auto simp: fentry_def rentry_def)
    then have "fmet mx aoffset boffset alimit blimit d rv k (fdiag mx aoffset boffset fw k)"
      using True kr unfolding fmet_def delta_def by simp
    with nf kf show False by blast
  next
    case False
    define k where "k = (if 0 \<le> delta then alimit - blimit - d else alimit - blimit + d)"
    have kr: "alimit - blimit - d \<le> k" "k \<le> alimit - blimit + d" "even (k - (alimit - blimit) - d)"
      using d by (auto simp: k_def)
    have kf: "aoffset - boffset - d \<le> k" "k \<le> aoffset - boffset + d"
      using big rect unfolding k_def delta_def by (auto split: if_splits)
    have kp: "even (k - (aoffset - boffset) - d)"
      using False unfolding k_def delta_def by (auto split: if_splits) (presburger+)?
    have "fentry aoffset boffset d k (fdiag mx aoffset boffset fw k)"
      using fi kf kp by (simp add: finv_def fdom_def)
    moreover have "rentry alimit blimit d k (rdiag mx alimit blimit rv' k)"
      using ri kr by (simp add: rinv_def rdom_def)
    ultimately have "rdiag mx alimit blimit rv' k \<le> fdiag mx aoffset boffset fw k"
      using big by (auto simp: fentry_def rentry_def)
    then have "rmet mx aoffset boffset alimit blimit d fw k (rdiag mx alimit blimit rv' k)"
      using False kf unfolding rmet_def delta_def by simp
    with nr kr show False by blast
  qed
qed


text \<open>The loop over the radius meets before it runs out.\<close>

lemma search_returns:
  assumes "aoffset < alimit" "boffset < blimit"
    and "\<forall>i j. aoffset \<le> i \<and> i < alimit \<and> boffset \<le> j \<and> j < blimit \<longrightarrow> (\<exists>v. Equal dt i j = Inr v)"
    and "maxd < mx" "mx + maxd < int (length fw)" "mx + 1 < int (length fw)" "mx + maxd < int (length rv)"
    and "(alimit - aoffset) + (blimit - boffset) + 1 \<le> 2 * maxd"
    and "0 \<le> d" "d \<le> maxd"
    and "finv mx aoffset boffset (d - 1) fw" "rinv mx alimit blimit (d - 1) rv"
  shows "\<exists>fw' rv' p. search dt mx aoffset boffset alimit blimit maxd fw rv d = Inr ((fw', rv'), p)
      \<and> length fw' = length fw \<and> length rv' = length rv \<and> aoffset \<le> fst p \<and> boffset \<le> snd p"
  using assms
proof (induction "nat (maxd - d)" arbitrary: fw rv d rule: less_induct)
  case less
  note rect = less.prems(1,2) and tot = less.prems(3) and room = less.prems(4-7)
    and half = less.prems(8) and d = less.prems(9,10) and fp = less.prems(11) and rp = less.prems(12)
  have "\<exists>fw' r. forward_search dt mx aoffset boffset alimit blimit d rv fw (aoffset - boffset - d) = Inr (fw', r)
      \<and> length fw' = length fw
      \<and> (\<forall>i. i < nat (mx - (aoffset - boffset) + (aoffset - boffset - d)) \<longrightarrow> fw' ! i = fw ! i)
      \<and> (r = None \<longrightarrow> finv mx aoffset boffset d fw'
           \<and> (\<forall>j. aoffset - boffset - d \<le> j \<and> j \<le> aoffset - boffset + d \<and> even (j - (aoffset - boffset) - d)
                 \<longrightarrow> \<not> fmet mx aoffset boffset alimit blimit d rv j (fdiag mx aoffset boffset fw' j)))
      \<and> (\<forall>p. r = Some p \<longrightarrow> aoffset \<le> fst p \<and> boffset \<le> snd p)"
    using room d tot fp by (intro forward_search_inv) auto
  then obtain fw' r where f: "forward_search dt mx aoffset boffset alimit blimit d rv fw (aoffset - boffset - d) = Inr (fw', r)"
    "length fw' = length fw"
    "r = None \<longrightarrow> finv mx aoffset boffset d fw'
           \<and> (\<forall>j. aoffset - boffset - d \<le> j \<and> j \<le> aoffset - boffset + d \<and> even (j - (aoffset - boffset) - d)
                 \<longrightarrow> \<not> fmet mx aoffset boffset alimit blimit d rv j (fdiag mx aoffset boffset fw' j))"
    "\<forall>p. r = Some p \<longrightarrow> aoffset \<le> fst p \<and> boffset \<le> snd p"
    by blast
  show ?case
  proof (cases r)
    case (Some p)
    with f d show ?thesis by (subst search.simps) simp
  next
    case None
    have "\<exists>rv' r'. reverse_search dt mx aoffset boffset alimit blimit d fw' rv (alimit - blimit - d) = Inr (rv', r')
      \<and> length rv' = length rv
      \<and> (\<forall>i. i < nat (mx - (alimit - blimit) + (alimit - blimit - d)) \<longrightarrow> rv' ! i = rv ! i)
      \<and> (r' = None \<longrightarrow> rinv mx alimit blimit d rv'
           \<and> (\<forall>j. alimit - blimit - d \<le> j \<and> j \<le> alimit - blimit + d \<and> even (j - (alimit - blimit) - d)
                 \<longrightarrow> \<not> rmet mx aoffset boffset alimit blimit d fw' j (rdiag mx alimit blimit rv' j)))
      \<and> (\<forall>p. r' = Some p \<longrightarrow> aoffset \<le> fst p \<and> boffset \<le> snd p)"
      using room d tot rp f(2,3) None by (intro reverse_search_inv) auto
    then obtain rv' r' where r: "reverse_search dt mx aoffset boffset alimit blimit d fw' rv (alimit - blimit - d) = Inr (rv', r')"
      "length rv' = length rv"
      "r' = None \<longrightarrow> rinv mx alimit blimit d rv'
           \<and> (\<forall>j. alimit - blimit - d \<le> j \<and> j \<le> alimit - blimit + d \<and> even (j - (alimit - blimit) - d)
                 \<longrightarrow> \<not> rmet mx aoffset boffset alimit blimit d fw' j (rdiag mx alimit blimit rv' j))"
      "\<forall>p. r' = Some p \<longrightarrow> aoffset \<le> fst p \<and> boffset \<le> snd p"
      by blast
    show ?thesis
    proof (cases r')
      case (Some p)
      with f r None d show ?thesis by (subst search.simps) simp
    next
      case rn: None
      have "2 * d < (alimit - aoffset) + (blimit - boffset)"
        using rect d(1) f(3) r(3) None rn rp by (intro no_meeting_small_radius[where fw = fw' and rv = rv and rv' = rv' and mx = mx]) auto
      then have d1: "d + 1 \<le> maxd" using half by simp
      then have "nat (maxd - (d + 1)) < nat (maxd - d)" by simp
      from less.hyps[OF this rect tot room(1) _ _ _ half _ d1, of fw' rv']
      have "\<exists>fw'' rv'' p. search dt mx aoffset boffset alimit blimit maxd fw' rv' (d + 1) = Inr ((fw'', rv''), p)
          \<and> length fw'' = length fw' \<and> length rv'' = length rv' \<and> aoffset \<le> fst p \<and> boffset \<le> snd p"
        using room d f(2,3) r(2,3) None rn by simp
      moreover have "search dt mx aoffset boffset alimit blimit maxd fw rv d =
          search dt mx aoffset boffset alimit blimit maxd fw' rv' (d + 1)"
        using f(1) r(1) None rn d by (subst search.simps) simp
      ultimately show ?thesis using f(2) r(2) by auto
    qed
  qed
qed

lemma sdiv_2_nonneg: "0 \<le> a \<Longrightarrow> a sdiv 2 = a div (2::int)"
  by (simp add: signed_divide_int_def sgn_if)

section \<open>findMiddleSnake returns\<close>

text \<open>
  The buffers of a context as a run of \<open>Diff\<close> keeps them: both nil, or both of length
  \<open>2 * max\<close>.
\<close>

definition buffers_ok :: "context \<Rightarrow> bool" where
  "buffers_ok c =
     (case (forward c, reverse c) of
        (None, None) \<Rightarrow> True
      | (Some f, Some r) \<Rightarrow> int (length f) = 2 * max_c c \<and> int (length r) = 2 * max_c c
      | _ \<Rightarrow> False)"

lemma findMiddleSnake_start:
  assumes "buffers_ok c" "2 \<le> max_c c"
  shows "\<exists>c0 f r. (if forward c = None then
               bindE (make_slice (2 * max_c c)) (\<lambda>f. bindE (make_slice (2 * max_c c)) (\<lambda>r.
                 Inr (c\<lparr>forward := Some f, reverse := Some r\<rparr>)))
             else Inr c) = Inr c0
      \<and> forward c0 = Some f \<and> reverse c0 = Some r \<and> int (length f) = 2 * max_c c \<and> int (length r) = 2 * max_c c
      \<and> data c0 = data c \<and> max_c c0 = max_c c \<and> flags c0 = flags c
      \<and> c0\<lparr>forward := forward c, reverse := reverse c\<rparr> = c"
  using assms by (auto simp: buffers_ok_def make_slice_def split: option.splits)

text \<open>
  On a rectangle of the two sequences with both dimensions non-empty, with an equality that
  answers on every pair of positions, and with the context of a run (\<open>max = N + M + 1\<close>,
  buffers nil or of length \<open>2 * max\<close>), \<open>findMiddleSnake\<close> returns a point: the search meets
  at a radius \<open>d \<le> maxd\<close>, so the panic after the loop is not reached, and no index is out of
  range on the way. The point is not before the start corner of the rectangle.
\<close>

theorem findMiddleSnake_meets:
  assumes "max_c c = N (data c) + M (data c) + 1" and "buffers_ok c"
    and "0 \<le> aoffset" "aoffset < alimit" "alimit \<le> N (data c)"
    and "0 \<le> boffset" "boffset < blimit" "blimit \<le> M (data c)"
    and "\<forall>i j. 0 \<le> i \<and> i < N (data c) \<and> 0 \<le> j \<and> j < M (data c) \<longrightarrow> (\<exists>v. Equal (data c) i j = Inr v)"
  shows "\<exists>c' x y. findMiddleSnake c aoffset boffset alimit blimit = Inr (c', x, y)
           \<and> aoffset \<le> x \<and> boffset \<le> y"
proof -
  define mx where "mx = max_c c"
  define maxd where "maxd = (alimit - aoffset + blimit - boffset + 2) sdiv 2"
  have md: "maxd = (alimit - aoffset + blimit - boffset + 2) div 2"
    unfolding maxd_def using assms(4,7) by (intro sdiv_2_nonneg) simp
  have mx: "maxd < mx" "(alimit - aoffset) + (blimit - boffset) + 1 \<le> 2 * maxd" "2 \<le> mx" "0 \<le> maxd"
    using assms(1,3-8) unfolding md mx_def by auto
  from findMiddleSnake_start[OF assms(2)] mx(3) obtain c0 f r where
    c0: "(if forward c = None then
               bindE (make_slice (2 * max_c c)) (\<lambda>f. bindE (make_slice (2 * max_c c)) (\<lambda>r.
                 Inr (c\<lparr>forward := Some f, reverse := Some r\<rparr>)))
             else Inr c) = Inr c0"
      "forward c0 = Some f" "reverse c0 = Some r" "int (length f) = 2 * mx" "int (length r) = 2 * mx"
      "data c0 = data c" "max_c c0 = mx"
    unfolding mx_def by blast
  define fw where "fw = f[nat (mx + 1) := aoffset]"
  define rv where "rv = r[nat (mx - 1) := alimit]"
  have u: "upd (slice (forward c0)) (max_c c0 + 1) aoffset = Inr fw"
    "upd (slice (reverse c0)) (max_c c0 - 1) alimit = Inr rv"
    using c0 mx(3) by (auto simp: upd_def slice_def fw_def rv_def)
  have fi: "finv mx aoffset boffset (0 - 1) fw"
    using c0(4) mx(3) by (auto simp: finv_def fdom_def fentry_def fdiag_def fw_def)
  have ri: "rinv mx alimit blimit (0 - 1) rv"
    using c0(5) mx(3) by (auto simp: rinv_def rdom_def rentry_def rdiag_def rv_def)
  have tot: "\<forall>i j. aoffset \<le> i \<and> i < alimit \<and> boffset \<le> j \<and> j < blimit \<longrightarrow> (\<exists>v. Equal (data c) i j = Inr v)"
    using assms(3,5,6,8,9) by auto
  have "\<exists>fw' rv' p. search (data c) mx aoffset boffset alimit blimit maxd fw rv 0 = Inr ((fw', rv'), p)
      \<and> length fw' = length fw \<and> length rv' = length rv \<and> aoffset \<le> fst p \<and> boffset \<le> snd p"
    using assms(4,7) tot mx c0(4,5) fi ri
    by (intro search_returns) (auto simp: fw_def rv_def)
  then obtain fw' rv' x y where
    "search (data c) mx aoffset boffset alimit blimit maxd fw rv 0 = Inr ((fw', rv'), (x, y))"
    "aoffset \<le> x" "boffset \<le> y"
    by force
  then show ?thesis
    unfolding findMiddleSnake_def Let_def maxd_def[symmetric]
    using c0(1,6,7) u by simp
qed

theorem findMiddleSnake_meets_witness:
  "\<exists>c' x y. findMiddleSnake
      \<lparr>data = Ints_seq [0, 1] [1, 2, 2], flags = [0, 0, 0], max_c = 6, forward = None, reverse = None\<rparr>
      0 0 2 3 = Inr (c', x, y) \<and> 0 \<le> x \<and> 0 \<le> y"
  using findMiddleSnake_meets [of
      "\<lparr>data = Ints_seq [0, 1] [1, 2, 2], flags = [0, 0, 0], max_c = 6, forward = None, reverse = None\<rparr>"
      0 2 0 3]
  by (simp add: Ints_seq_def buffers_ok_def idx_def)

section \<open>No index of findMiddleSnake is out of range\<close>




section \<open>The buffers of a run\<close>

lemma fstep_length:
  "fstep dt mx aoffset boffset alimit blimit d rv fw k = Inr (fw', x, met) \<Longrightarrow> length fw' = length fw"
  unfolding fstep_def Let_def
  by (auto simp: bindE_eq_Inr upd_def split: if_splits prod.splits)

lemma rstep_length:
  "rstep dt mx aoffset boffset alimit blimit d fw rv k = Inr (rv', met) \<Longrightarrow> length rv' = length rv"
  unfolding rstep_def Let_def
  by (auto simp: bindE_eq_Inr upd_def split: if_splits prod.splits)

lemma forward_search_length:
  "forward_search dt mx aoffset boffset alimit blimit d rv fw k = Inr (fw', r) \<Longrightarrow> length fw' = length fw"
proof (induction "nat (aoffset - boffset + d + 2 - k)" arbitrary: fw k rule: less_induct)
  case less
  show ?case
  proof (cases "k \<le> aoffset - boffset + d")
    case False
    with less.prems show ?thesis by (subst (asm) forward_search_unfold) simp
  next
    case True
    with less.prems obtain fw1 x met where
      s: "fstep dt mx aoffset boffset alimit blimit d rv fw k = Inr (fw1, x, met)"
      and r: "(if met then Inr (fw1, Some (x, x - k))
               else forward_search dt mx aoffset boffset alimit blimit d rv fw1 (k + 2)) = Inr (fw', r)"
      by (subst (asm) forward_search_unfold) (auto simp: bindE_eq_Inr)
    have l: "length fw1 = length fw" using s by (rule fstep_length)
    show ?thesis
    proof (cases met)
      case True
      with r l show ?thesis by simp
    next
      case False
      have "nat (aoffset - boffset + d + 2 - (k + 2)) < nat (aoffset - boffset + d + 2 - k)"
        using \<open>k \<le> aoffset - boffset + d\<close> by simp
      from less.hyps[OF this] r False l show ?thesis by simp
    qed
  qed
qed

lemma reverse_search_length:
  "reverse_search dt mx aoffset boffset alimit blimit d fw rv k = Inr (rv', r) \<Longrightarrow> length rv' = length rv"
proof (induction "nat (alimit - blimit + d + 2 - k)" arbitrary: rv k rule: less_induct)
  case less
  show ?case
  proof (cases "k \<le> alimit - blimit + d")
    case False
    with less.prems show ?thesis by (subst (asm) reverse_search_unfold) simp
  next
    case True
    with less.prems obtain rv1 met where
      s: "rstep dt mx aoffset boffset alimit blimit d fw rv k = Inr (rv1, met)"
      and r: "(if met then bindE (idx fw (mx - (aoffset - boffset) + k)) (\<lambda>x. Inr (rv1, Some (x, x - k)))
               else reverse_search dt mx aoffset boffset alimit blimit d fw rv1 (k + 2)) = Inr (rv', r)"
      by (subst (asm) reverse_search_unfold) (auto simp: bindE_eq_Inr)
    have l: "length rv1 = length rv" using s by (rule rstep_length)
    show ?thesis
    proof (cases met)
      case True
      with r l show ?thesis by (auto simp: bindE_eq_Inr)
    next
      case False
      have "nat (alimit - blimit + d + 2 - (k + 2)) < nat (alimit - blimit + d + 2 - k)"
        using \<open>k \<le> alimit - blimit + d\<close> by simp
      from less.hyps[OF this] r False l show ?thesis by simp
    qed
  qed
qed

lemma search_length:
  "search dt mx aoffset boffset alimit blimit maxd fw rv d = Inr ((fw', rv'), p) \<Longrightarrow>
   length fw' = length fw \<and> length rv' = length rv"
proof (induction "nat (maxd + 1 - d)" arbitrary: fw rv d rule: less_induct)
  case less
  show ?case
  proof (cases "d \<le> maxd")
    case False
    with less.prems show ?thesis by (subst (asm) search.simps) simp
  next
    case True
    with less.prems obtain fw1 r1 where
      f: "forward_search dt mx aoffset boffset alimit blimit d rv fw (aoffset - boffset - d) = Inr (fw1, r1)"
      and r: "(case r1 of Some p \<Rightarrow> Inr ((fw1, rv), p)
               | None \<Rightarrow> bindE (reverse_search dt mx aoffset boffset alimit blimit d fw1 rv (alimit - blimit - d))
                  (\<lambda>(rv', r). case r of Some p \<Rightarrow> Inr ((fw1, rv'), p)
                    | None \<Rightarrow> search dt mx aoffset boffset alimit blimit maxd fw1 rv' (d + 1)))
             = Inr ((fw', rv'), p)"
      by (subst (asm) search.simps) (auto simp: bindE_eq_Inr)
    have l: "length fw1 = length fw" using f by (rule forward_search_length)
    show ?thesis
    proof (cases r1)
      case (Some q)
      with r l show ?thesis by simp
    next
      case None
      with r obtain rv1 r2 where
        g: "reverse_search dt mx aoffset boffset alimit blimit d fw1 rv (alimit - blimit - d) = Inr (rv1, r2)"
        and r': "(case r2 of Some p \<Rightarrow> Inr ((fw1, rv1), p)
                    | None \<Rightarrow> search dt mx aoffset boffset alimit blimit maxd fw1 rv1 (d + 1)) = Inr ((fw', rv'), p)"
        by (auto simp: bindE_eq_Inr)
      have l': "length rv1 = length rv" using g by (rule reverse_search_length)
      show ?thesis
      proof (cases r2)
        case (Some q)
        with r' l l' show ?thesis by simp
      next
        case None
        have "nat (maxd + 1 - (d + 1)) < nat (maxd + 1 - d)" using True by simp
        from less.hyps[OF this] r' None l l' show ?thesis by simp
      qed
    qed
  qed
qed


lemma bind_sum_Some:
  "Option.bind p (\<lambda>r. case r of Inl e \<Rightarrow> Some (Inl e) | Inr c2 \<Rightarrow> g c2) = Some (Inr c')
     \<longleftrightarrow> (\<exists>c2. p = Some (Inr c2) \<and> g c2 = Some (Inr c'))"
proof (cases p)
  case None
  then show ?thesis by simp
next
  case (Some y)
  then show ?thesis by (cases y) auto
qed

lemma findMiddleSnake_keeps:
  assumes "findMiddleSnake c aoffset boffset alimit blimit = Inr (c', x, y)" and "buffers_ok c"
  shows "buffers_ok c' \<and> max_c c' = max_c c \<and> data c' = data c \<and> flags c' = flags c"
proof -
  from assms(1) obtain c0 fw rv fw' rv' where
    c0: "(if forward c = None then
            bindE (make_slice (2 * max_c c)) (\<lambda>f. bindE (make_slice (2 * max_c c)) (\<lambda>r.
              Inr (c\<lparr>forward := Some f, reverse := Some r\<rparr>)))
          else Inr c) = Inr c0"
    and u: "upd (slice (forward c0)) (max_c c0 + 1) aoffset = Inr fw"
      "upd (slice (reverse c0)) (max_c c0 - 1) alimit = Inr rv"
    and s: "search (data c0) (max_c c0) aoffset boffset alimit blimit
        ((alimit - aoffset + blimit - boffset + 2) sdiv 2) fw rv 0 = Inr ((fw', rv'), (x, y))"
    and c': "c' = c0\<lparr>forward := Some fw', reverse := Some rv'\<rparr>"
    unfolding findMiddleSnake_def Let_def by (auto simp: bindE_eq_Inr)
  have l: "length fw' = length fw" "length rv' = length rv"
    using search_length[OF s] by simp_all
  have l0: "length fw = length (slice (forward c0))" "length rv = length (slice (reverse c0))"
    using u by (auto simp: upd_def split: if_splits)
  have "buffers_ok c0 \<and> forward c0 \<noteq> None \<and> max_c c0 = max_c c \<and> data c0 = data c \<and> flags c0 = flags c"
    using c0 assms(2)
    by (auto simp: buffers_ok_def make_slice_def bindE_eq_Inr split: if_splits option.splits)
  then show ?thesis
    unfolding c' using l l0 by (auto simp: buffers_ok_def slice_def split: option.splits)
qed

lemma compare_keeps:
  assumes "compare c aoffset boffset alimit blimit = Some (Inr c')" and "buffers_ok c"
  shows "buffers_ok c' \<and> max_c c' = max_c c \<and> data c' = data c"
proof -
  have "\<forall>c'. r = Inr c' \<longrightarrow> buffers_ok c \<longrightarrow> buffers_ok c' \<and> max_c c' = max_c c \<and> data c' = data c"
    if "compare c aoffset boffset alimit blimit = Some r" for r
  proof (rule compare.raw_induct[where P = "\<lambda>c aoffset boffset alimit blimit r.
      \<forall>c'. r = Inr c' \<longrightarrow> buffers_ok c \<longrightarrow> buffers_ok c' \<and> max_c c' = max_c c \<and> data c' = data c",
      OF _ that], goal_cases)
    case (1 cmp c aoffset boffset alimit blimit r)
    note IH = 1(1) and unf = 1(2)
    show ?case
    proof (intro allI impI)
      fix c' assume r: "r = Inr c'" and ok: "buffers_ok c"
      from unf r obtain t where
        t: "bindE (eat_prefix (data c) aoffset boffset alimit blimit) (\<lambda>(aoffset, boffset).
              bindE (eat_suffix (data c) aoffset boffset alimit blimit) (\<lambda>(alimit, blimit).
                Inr (aoffset, boffset, alimit, blimit))) = Inr t"
        by (cases "bindE (eat_prefix (data c) aoffset boffset alimit blimit) (\<lambda>(aoffset, boffset).
              bindE (eat_suffix (data c) aoffset boffset alimit blimit) (\<lambda>(alimit, blimit).
                Inr (aoffset, boffset, alimit, blimit)))") auto
      obtain a0 b0 a1 b1 where t': "t = (a0, b0, a1, b1)" by (cases t) auto
      have body: "(if a0 = a1 then Some (bindE (mark 2 (flags c) b0 b1) (\<lambda>fl. Inr (c\<lparr>flags := fl\<rparr>)))
           else if b0 = b1 then Some (bindE (mark 1 (flags c) a0 a1) (\<lambda>fl. Inr (c\<lparr>flags := fl\<rparr>)))
           else (case findMiddleSnake c a0 b0 a1 b1 of
               Inl e \<Rightarrow> Some (Inl e)
             | Inr (c1, x, y) \<Rightarrow>
                 Option.bind (cmp c1 a0 b0 x y) (\<lambda>r.
                   case r of Inl e \<Rightarrow> Some (Inl e) | Inr c2 \<Rightarrow> cmp c2 x y a1 b1))) = Some (Inr c')"
        using unf r unfolding t t' by simp
      show "buffers_ok c' \<and> max_c c' = max_c c \<and> data c' = data c"
      proof (cases "a0 = a1 \<or> b0 = b1")
        case True
        with body obtain fl where "c' = c\<lparr>flags := fl\<rparr>"
          by (auto simp: bindE_eq_Inr split: if_splits)
        with ok show ?thesis by (auto simp: buffers_ok_def split: option.splits)
      next
        case False
        with body obtain c1 x y c2 where
          f: "findMiddleSnake c a0 b0 a1 b1 = Inr (c1, x, y)"
          and l: "cmp c1 a0 b0 x y = Some (Inr c2)" and rr: "cmp c2 x y a1 b1 = Some (Inr c')"
          by (auto split: sum.splits if_splits simp: bind_sum_Some)
        have 1: "buffers_ok c1 \<and> max_c c1 = max_c c \<and> data c1 = data c"
          using findMiddleSnake_keeps[OF f ok] by simp
        have 2: "buffers_ok c2 \<and> max_c c2 = max_c c \<and> data c2 = data c"
          using IH[OF l, rule_format, OF refl] 1 by auto
        show ?thesis
          using IH[OF rr, rule_format, OF refl] 2 by auto
      qed
    qed
  qed
  with assms show ?thesis by blast
qed

text \<open>
  No call of \<open>compare\<close>, on whichever rectangle of the recursion, changes \<open>max\<close>, and it
  leaves the two buffers both nil or both of length \<open>2 * max\<close>, as it found them.
\<close>

theorem compare_keeps_buffers:
  assumes "compare c aoffset boffset alimit blimit = Some (Inr c')" and "buffers_ok c"
  shows "buffers_ok c' \<and> max_c c' = max_c c"
  using compare_keeps[OF assms] by simp

theorem compare_keeps_buffers_witness:
  "buffers_ok \<lparr>data = Ints_seq [1] [2], flags = [0], max_c = 3, forward = None, reverse = None\<rparr> \<and>
   (\<exists>c'. compare \<lparr>data = Ints_seq [1] [2], flags = [0], max_c = 3, forward = None, reverse = None\<rparr> 0 0 1 1
           = Some (Inr c') \<and> buffers_ok c' \<and> max_c c' = 3)"
proof -
  let ?c = "\<lparr>data = Ints_seq [1] [2], flags = [0], max_c = 3, forward = None, reverse = None\<rparr>"
  have ok: "buffers_ok ?c" by (simp add: buffers_ok_def)
  have "case compare ?c 0 0 1 1 of Some (Inr c') \<Rightarrow> True | _ \<Rightarrow> False"
    by code_simp
  then obtain c' where c': "compare ?c 0 0 1 1 = Some (Inr c')"
    by (auto split: option.splits sum.splits)
  from compare_keeps_buffers[OF c' ok] ok c' show ?thesis by auto
qed



section \<open>Every call of findMiddleSnake in a run\<close>

text \<open>
  The two trimming loops at the head of \<open>compare\<close>, as one value: the rectangle that is left.
\<close>

definition trim :: "Interface \<Rightarrow> int \<Rightarrow> int \<Rightarrow> int \<Rightarrow> int \<Rightarrow> error + int \<times> int \<times> int \<times> int" where
  "trim dt aoffset boffset alimit blimit =
     bindE (eat_prefix dt aoffset boffset alimit blimit) (\<lambda>(aoffset, boffset).
       bindE (eat_suffix dt aoffset boffset alimit blimit) (\<lambda>(alimit, blimit).
         Inr (aoffset, boffset, alimit, blimit)))"


lemma compare_trim:
  "compare c aoffset boffset alimit blimit =
     (case trim (data c) aoffset boffset alimit blimit of
        Inl e \<Rightarrow> Some (Inl e)
      | Inr (a0, b0, a1, b1) \<Rightarrow>
          if a0 = a1 then
            Some (bindE (mark 2 (flags c) b0 b1) (\<lambda>fl. Inr (c\<lparr>flags := fl\<rparr>)))
          else if b0 = b1 then
            Some (bindE (mark 1 (flags c) a0 a1) (\<lambda>fl. Inr (c\<lparr>flags := fl\<rparr>)))
          else
            (case findMiddleSnake c a0 b0 a1 b1 of
               Inl e \<Rightarrow> Some (Inl e)
             | Inr (c1, x, y) \<Rightarrow>
                 Option.bind (compare c1 a0 b0 x y) (\<lambda>r.
                   case r of
                     Inl e \<Rightarrow> Some (Inl e)
                   | Inr c2 \<Rightarrow> compare c2 x y a1 b1)))"
  by (subst compare.simps) (simp add: trim_def)

lemma eat_prefix_bounds:
  "eat_prefix dt aoffset boffset alimit blimit = Inr (a0, b0) \<Longrightarrow>
   aoffset \<le> a0 \<and> boffset \<le> b0 \<and> (aoffset \<le> alimit \<longrightarrow> a0 \<le> alimit) \<and> (boffset \<le> blimit \<longrightarrow> b0 \<le> blimit)"
proof (induction dt aoffset boffset alimit blimit rule: eat_prefix.induct)
  case (1 dt aoffset boffset alimit blimit)
  show ?case
  proof (cases "aoffset < alimit \<and> boffset < blimit")
    case False
    with "1.prems" show ?thesis by (auto simp: eat_prefix_stop)
  next
    case True
    show ?thesis
    proof (cases "Equal dt aoffset boffset")
      case (Inl e)
      with True "1.prems" show ?thesis by (simp add: eat_prefix_panic)
    next
      case (Inr v)
      show ?thesis
      proof (cases v)
        case vt: True
        have "eat_prefix dt (aoffset + 1) (boffset + 1) alimit blimit = Inr (a0, b0)"
          using True Inr vt "1.prems" by (simp add: eat_prefix_step)
        from "1.IH"[OF True Inr _ this] vt True show ?thesis by auto
      next
        case False
        with True Inr "1.prems" show ?thesis by (auto simp: eat_prefix_differ)
      qed
    qed
  qed
qed

lemma eat_suffix_bounds:
  "eat_suffix dt aoffset boffset alimit blimit = Inr (a1, b1) \<Longrightarrow>
   a1 \<le> alimit \<and> b1 \<le> blimit \<and> (aoffset \<le> alimit \<longrightarrow> aoffset \<le> a1) \<and> (boffset \<le> blimit \<longrightarrow> boffset \<le> b1)
   \<and> (aoffset < a1 \<and> boffset < b1 \<longrightarrow> Equal dt (a1 - 1) (b1 - 1) = Inr False)"
proof (induction dt aoffset boffset alimit blimit rule: eat_suffix.induct)
  case (1 dt aoffset boffset alimit blimit)
  show ?case
  proof (cases "aoffset < alimit \<and> boffset < blimit")
    case False
    with "1.prems" show ?thesis by (auto simp: eat_suffix_stop)
  next
    case True
    show ?thesis
    proof (cases "Equal dt (alimit - 1) (blimit - 1)")
      case (Inl e)
      with True "1.prems" show ?thesis by (simp add: eat_suffix_panic)
    next
      case (Inr v)
      show ?thesis
      proof (cases v)
        case vt: True
        have "eat_suffix dt aoffset boffset (alimit - 1) (blimit - 1) = Inr (a1, b1)"
          using True Inr vt "1.prems" by (simp add: eat_suffix_step)
        from "1.IH"[OF _ Inr _ this] vt True show ?thesis by auto
      next
        case False
        with True Inr "1.prems" show ?thesis by (auto simp: eat_suffix_differ)
      qed
    qed
  qed
qed







section \<open>The two buffers in a run of Diff\<close>















section \<open>Change lists: what the claims speak of\<close>

text \<open>
  Applying a change list to \<open>a\<close> in one pass from position \<open>pos\<close>: the elements of \<open>a\<close> before
  the change are kept, \<open>Del\<close> elements of \<open>a\<close> are dropped at offset \<open>A\<close>, and the \<open>Ins\<close>
  elements of \<open>b\<close> at offset \<open>B\<close> are put in their place.
\<close>

fun apply_changes :: "Change list \<Rightarrow> int \<Rightarrow> 'a list \<Rightarrow> 'a list \<Rightarrow> 'a list" where
  "apply_changes [] pos a b = drop (nat pos) a"
| "apply_changes (c # cs) pos a b =
     take (nat (A c - pos)) (drop (nat pos) a) @ take (nat (Ins c)) (drop (nat (B c)) b)
       @ apply_changes cs (A c + Del c) a b"

text \<open>The number of single deletions and insertions of a change list.\<close>

fun script_length :: "Change list \<Rightarrow> int" where
  "script_length [] = 0"
| "script_length (c # cs) = Del c + Ins c + script_length cs"

text \<open>The least number of single deletions and insertions that turn one list into another.\<close>

fun edit_distance :: "'a list \<Rightarrow> 'a list \<Rightarrow> nat" where
  "edit_distance [] ys = length ys"
| "edit_distance xs [] = length xs"
| "edit_distance (x # xs) (y # ys) =
     (if x = y then edit_distance xs ys
      else 1 + min (edit_distance xs (y # ys)) (edit_distance (x # xs) ys))"

text \<open>
  Every change deletes or inserts something, and consecutive changes are strictly increasing
  in \<open>A\<close> and in \<open>B\<close> and do not overlap.
\<close>

fun ordered :: "Change list \<Rightarrow> bool" where
  "ordered [] = True"
| "ordered [c] = (Del c > 0 \<or> Ins c > 0)"
| "ordered (c # c' # cs) =
     ((Del c > 0 \<or> Ins c > 0) \<and> A c < A c' \<and> B c < B c' \<and> A c + Del c \<le> A c' \<and> B c + Ins c \<le> B c'
      \<and> ordered (c' # cs))"

text \<open>The change with the roles of the two sequences exchanged.\<close>

definition swap :: "Change \<Rightarrow> Change" where
  "swap c = \<lparr>A = B c, B = A c, Del = Ins c, Ins = Del c\<rparr>"

section \<open>Inputs on which the forward search goes wrong\<close>

text \<open>
  C1 (reconstruction) does not hold of the code. On \<open>A = [0, 0, 1, 1]\<close>, \<open>B = [1, 0, 0]\<close>
  the run panics: \<open>findMiddleSnake\<close> returns the point \<open>(3, 4)\<close>, beyond \<open>blimit = 3\<close>, and
  \<open>compare(0, 0, 3, 4)\<close> then calls \<open>Equal(2, 3)\<close>. On \<open>A = [0, 0, 1, 1, 1, 0]\<close>,
  \<open>B = [1, 0, 0, 1, 0]\<close> a change list is returned, and applying it to \<open>A\<close> gives
  \<open>[1, 0, 0, 1, 1]\<close>, not \<open>B\<close>.
\<close>

theorem Diff_reconstruction_fails:
  "Diff (Ints_seq [0, 0, 1, 1] [1, 0, 0]) = Some (Inl IndexOutOfRange) \<and>
   Diff (Ints_seq [0, 0, 1, 1, 1, 0] [1, 0, 0, 1, 0]) =
     Some (Inr [\<lparr>A = 0, B = 0, Del = 0, Ins = 1\<rparr>, \<lparr>A = 3, B = 4, Del = 1, Ins = 0\<rparr>,
                \<lparr>A = 5, B = 5, Del = 1, Ins = 0\<rparr>]) \<and>
   apply_changes [\<lparr>A = 0, B = 0, Del = 0, Ins = 1\<rparr>, \<lparr>A = 3, B = 4, Del = 1, Ins = 0\<rparr>,
                  \<lparr>A = 5, B = 5, Del = 1, Ins = 0\<rparr>] 0 [0, 0, 1, 1, 1, 0] [1, 0, 0, 1, 0]
     = [1, 0, 0, 1, 1 :: int]"
  by code_simp

text \<open>
  C2 (minimality) does not hold of the code. On \<open>A = [0, 1]\<close>, \<open>B = [1, 2, 2]\<close> the returned
  script deletes both elements and inserts three, five operations, while three suffice:
  delete \<open>0\<close>, keep \<open>1\<close>, insert \<open>2, 2\<close>.
\<close>

theorem Diff_not_shortest:
  "Diff (Ints_seq [0, 1] [1, 2, 2]) = Some (Inr [\<lparr>A = 0, B = 0, Del = 2, Ins = 3\<rparr>]) \<and>
   script_length [\<lparr>A = 0, B = 0, Del = 2, Ins = 3\<rparr>] = 5 \<and>
   edit_distance [0, 1] [1, 2, 2 :: int] = 3 \<and>
   apply_changes [\<lparr>A = 0, B = 0, Del = 1, Ins = 0\<rparr>, \<lparr>A = 2, B = 1, Del = 0, Ins = 2\<rparr>] 0 [0, 1] [1, 2, 2 :: int]
     = [1, 2, 2] \<and>
   script_length [\<lparr>A = 0, B = 0, Del = 1, Ins = 0\<rparr>, \<lparr>A = 2, B = 1, Del = 0, Ins = 2\<rparr>] = 3"
  by code_simp

text \<open>
  C3 (ordering) does not hold of the code. On \<open>A = [0, 0, 1, 1, 0, 1, 1, 1, 1, 1]\<close>,
  \<open>B = [1, 0, 0, 0, 1, 1, 0]\<close> the last two changes returned both have \<open>A = 6\<close>.
\<close>

theorem Diff_not_increasing:
  "Diff (Ints_seq [0, 0, 1, 1, 0, 1, 1, 1, 1, 1] [1, 0, 0, 0, 1, 1, 0]) =
     Some (Inr [\<lparr>A = 0, B = 0, Del = 0, Ins = 2\<rparr>, \<lparr>A = 2, B = 4, Del = 2, Ins = 0\<rparr>,
                \<lparr>A = 6, B = 6, Del = 0, Ins = 1\<rparr>, \<lparr>A = 6, B = 7, Del = 4, Ins = 0\<rparr>]) \<and>
   \<not> ordered [\<lparr>A = 0, B = 0, Del = 0, Ins = 2\<rparr>, \<lparr>A = 2, B = 4, Del = 2, Ins = 0\<rparr>,
                \<lparr>A = 6, B = 6, Del = 0, Ins = 1\<rparr>, \<lparr>A = 6, B = 7, Del = 4, Ins = 0\<rparr>]"
  by code_simp

text \<open>The points of a rectangle, corners and sides included.\<close>

definition in_rectangle :: "int \<Rightarrow> int \<Rightarrow> int \<Rightarrow> int \<Rightarrow> int \<times> int \<Rightarrow> bool" where
  "in_rectangle aoffset boffset alimit blimit p =
     (aoffset \<le> fst p \<and> fst p \<le> alimit \<and> boffset \<le> snd p \<and> snd p \<le> blimit)"

text \<open>
  C6 (the search returns a meeting point) does not hold of the code. On \<open>A = [0, 0, 1, 1]\<close>,
  \<open>B = [1, 0, 0]\<close> nothing is trimmed and \<open>compare\<close> calls \<open>findMiddleSnake(0, 0, 4, 3)\<close>,
  a rectangle with both dimensions non-empty. The call returns \<open>(3, 4)\<close>: a point below the
  rectangle, which no path from \<open>(0, 0)\<close> to \<open>(4, 3)\<close> goes through, so not a point where
  a forward and a reverse path meet.
\<close>

theorem findMiddleSnake_leaves_rectangle:
  "map_sum id snd
     (findMiddleSnake
        \<lparr>data = Ints_seq [0, 0, 1, 1] [1, 0, 0], flags = [0, 0, 0, 0], max_c = 4 + 3 + 1,
         forward = None, reverse = None\<rparr> 0 0 4 3) = Inr (3, 4) \<and>
   \<not> in_rectangle 0 0 4 3 (3, 4)"
  by code_simp

text \<open>
  C5 (symmetry) does not hold of the code. For \<open>A = [0, 1]\<close>, \<open>B = [1, 2, 2]\<close> there is one
  shortest script (delete \<open>0\<close>, keep \<open>1\<close>, insert \<open>2, 2\<close>). Diffing \<open>(B, A)\<close> returns it,
  with the roles exchanged; diffing \<open>(A, B)\<close> returns a script of five operations, which is
  not the swapped one.
\<close>

theorem Diff_symmetry_fails:
  "Diff (Ints_seq [0, 1] [1, 2, 2]) = Some (Inr [\<lparr>A = 0, B = 0, Del = 2, Ins = 3\<rparr>]) \<and>
   Diff (Ints_seq [1, 2, 2] [0, 1]) =
     Some (Inr [\<lparr>A = 0, B = 0, Del = 0, Ins = 1\<rparr>, \<lparr>A = 1, B = 2, Del = 2, Ins = 0\<rparr>]) \<and>
   map swap [\<lparr>A = 0, B = 0, Del = 2, Ins = 3\<rparr>]
     \<noteq> [\<lparr>A = 0, B = 0, Del = 0, Ins = 1\<rparr>, \<lparr>A = 1, B = 2, Del = 2, Ins = 0\<rparr>] \<and>
   script_length [\<lparr>A = 0, B = 0, Del = 2, Ins = 3\<rparr>] = 5 \<and>
   script_length [\<lparr>A = 0, B = 0, Del = 0, Ins = 1\<rparr>, \<lparr>A = 1, B = 2, Del = 2, Ins = 0\<rparr>] = 3 \<and>
   edit_distance [1, 2, 2] [0, 1 :: int] = 3"
  by code_simp

text \<open>
  On the sequences of the paper's figure 1, where several shortest scripts exist, the two
  directions return different scripts, as the test \<open>TestDiffBA\<close> records.
\<close>

theorem Diff_symmetry_counterexample:
  "Diff (Ints_seq [1, 2, 3, 1, 2, 2, 1] [3, 2, 1, 2, 1, 3]) =
     Some (Inr [\<lparr>A = 0, B = 0, Del = 1, Ins = 1\<rparr>, \<lparr>A = 2, B = 2, Del = 1, Ins = 0\<rparr>,
                \<lparr>A = 5, B = 4, Del = 1, Ins = 0\<rparr>, \<lparr>A = 7, B = 5, Del = 0, Ins = 1\<rparr>]) \<and>
   Diff (Ints_seq [3, 2, 1, 2, 1, 3] [1, 2, 3, 1, 2, 2, 1]) =
     Some (Inr [\<lparr>A = 0, B = 0, Del = 0, Ins = 2\<rparr>, \<lparr>A = 1, B = 3, Del = 0, Ins = 1\<rparr>,
                \<lparr>A = 2, B = 5, Del = 1, Ins = 0\<rparr>, \<lparr>A = 5, B = 7, Del = 1, Ins = 0\<rparr>]) \<and>
   map swap [\<lparr>A = 0, B = 0, Del = 1, Ins = 1\<rparr>, \<lparr>A = 2, B = 2, Del = 1, Ins = 0\<rparr>,
             \<lparr>A = 5, B = 4, Del = 1, Ins = 0\<rparr>, \<lparr>A = 7, B = 5, Del = 0, Ins = 1\<rparr>]
     \<noteq> [\<lparr>A = 0, B = 0, Del = 0, Ins = 2\<rparr>, \<lparr>A = 1, B = 3, Del = 0, Ins = 1\<rparr>,
        \<lparr>A = 2, B = 5, Del = 1, Ins = 0\<rparr>, \<lparr>A = 5, B = 7, Del = 1, Ins = 0\<rparr>]"
  by code_simp

section \<open>Exchanging the two sequences\<close>

text \<open>The data with the roles of the two sequences exchanged.\<close>

definition swap_data :: "Interface \<Rightarrow> Interface" where
  "swap_data dt = \<lparr>N = M dt, M = N dt, Equal = (\<lambda>i j. Equal dt j i)\<rparr>"

lemma Ints_seq_swap: "swap_data (Ints_seq a b) = Ints_seq b a"
proof -
  have "bindE (idx a j) (\<lambda>u. bindE (idx b i) (\<lambda>v. Inr (u = v)))
      = bindE (idx b i) (\<lambda>u. bindE (idx a j) (\<lambda>v. Inr (u = v)))" for i j
    by (auto simp: idx_def)
  then show ?thesis by (simp add: swap_data_def Ints_seq_def)
qed

lemma eat_prefix_swap:
  "eat_prefix (swap_data dt) boffset aoffset blimit alimit
     = map_sum id prod.swap (eat_prefix dt aoffset boffset alimit blimit)"
proof (induction dt aoffset boffset alimit blimit rule: eat_prefix.induct)
  case (1 dt aoffset boffset alimit blimit)
  have e: "Equal (swap_data dt) boffset aoffset = Equal dt aoffset boffset"
    by (simp add: swap_data_def)
  show ?case
  proof (cases "aoffset < alimit \<and> boffset < blimit")
    case False
    then show ?thesis by (auto simp: eat_prefix_stop)
  next
    case True
    show ?thesis
    proof (cases "Equal dt aoffset boffset")
      case (Inl err)
      with True e show ?thesis by (simp add: eat_prefix_panic)
    next
      case (Inr v)
      show ?thesis
      proof (cases v)
        case vt: True
        from "1.IH"[OF True Inr] vt True Inr e show ?thesis
          by (simp add: eat_prefix_step)
      next
        case False
        with True Inr e show ?thesis by (simp add: eat_prefix_differ)
      qed
    qed
  qed
qed

lemma eat_suffix_swap:
  "eat_suffix (swap_data dt) boffset aoffset blimit alimit
     = map_sum id prod.swap (eat_suffix dt aoffset boffset alimit blimit)"
proof (induction dt aoffset boffset alimit blimit rule: eat_suffix.induct)
  case (1 dt aoffset boffset alimit blimit)
  have e: "Equal (swap_data dt) (blimit - 1) (alimit - 1) = Equal dt (alimit - 1) (blimit - 1)"
    by (simp add: swap_data_def)
  show ?case
  proof (cases "aoffset < alimit \<and> boffset < blimit")
    case False
    then show ?thesis by (auto simp: eat_suffix_stop)
  next
    case True
    show ?thesis
    proof (cases "Equal dt (alimit - 1) (blimit - 1)")
      case (Inl err)
      with True e show ?thesis by (simp add: eat_suffix_panic)
    next
      case (Inr v)
      show ?thesis
      proof (cases v)
        case vt: True
        from "1.IH"[OF _ Inr] vt True Inr e show ?thesis
          by (simp add: eat_suffix_step)
      next
        case False
        with True Inr e show ?thesis by (simp add: eat_suffix_differ)
      qed
    qed
  qed
qed

lemma trim_swap:
  assumes "trim dt aoffset boffset alimit blimit = Inr (a0, b0, a1, b1)"
  shows "trim (swap_data dt) boffset aoffset blimit alimit = Inr (b0, a0, b1, a1)"
proof -
  from assms have p: "eat_prefix dt aoffset boffset alimit blimit = Inr (a0, b0)"
    and s: "eat_suffix dt a0 b0 alimit blimit = Inr (a1, b1)"
    unfolding trim_def by (auto simp: bindE_eq_Inr)
  show ?thesis
    unfolding trim_def by (simp add: eat_prefix_swap eat_suffix_swap p s)
qed

lemma eat_prefix_diag:
  "eat_prefix dt aoffset boffset alimit blimit = Inr (a0, b0) \<Longrightarrow> a0 - aoffset = b0 - boffset"
proof (induction dt aoffset boffset alimit blimit rule: eat_prefix.induct)
  case (1 dt aoffset boffset alimit blimit)
  show ?case
  proof (cases "aoffset < alimit \<and> boffset < blimit")
    case False
    with "1.prems" show ?thesis by (auto simp: eat_prefix_stop)
  next
    case True
    show ?thesis
    proof (cases "Equal dt aoffset boffset")
      case (Inl e)
      with True "1.prems" show ?thesis by (simp add: eat_prefix_panic)
    next
      case (Inr v)
      show ?thesis
      proof (cases v)
        case vt: True
        have "eat_prefix dt (aoffset + 1) (boffset + 1) alimit blimit = Inr (a0, b0)"
          using True Inr vt "1.prems" by (simp add: eat_prefix_step)
        from "1.IH"[OF True Inr _ this] vt show ?thesis by auto
      next
        case False
        with True Inr "1.prems" show ?thesis by (auto simp: eat_prefix_differ)
      qed
    qed
  qed
qed

lemma eat_suffix_diag:
  "eat_suffix dt aoffset boffset alimit blimit = Inr (a1, b1) \<Longrightarrow> alimit - a1 = blimit - b1"
proof (induction dt aoffset boffset alimit blimit rule: eat_suffix.induct)
  case (1 dt aoffset boffset alimit blimit)
  show ?case
  proof (cases "aoffset < alimit \<and> boffset < blimit")
    case False
    with "1.prems" show ?thesis by (auto simp: eat_suffix_stop)
  next
    case True
    show ?thesis
    proof (cases "Equal dt (alimit - 1) (blimit - 1)")
      case (Inl e)
      with True "1.prems" show ?thesis by (simp add: eat_suffix_panic)
    next
      case (Inr v)
      show ?thesis
      proof (cases v)
        case vt: True
        have "eat_suffix dt aoffset boffset (alimit - 1) (blimit - 1) = Inr (a1, b1)"
          using True Inr vt "1.prems" by (simp add: eat_suffix_step)
        from "1.IH"[OF _ Inr _ this] vt True show ?thesis by auto
      next
        case False
        with True Inr "1.prems" show ?thesis by (auto simp: eat_suffix_differ)
      qed
    qed
  qed
qed

text \<open>What trimming the whole of two sequences leaves.\<close>

lemma trim_whole:
  assumes "trim dt 0 0 n m = Inr (a0, b0, a1, b1)" and "0 \<le> n" "0 \<le> m"
  shows "b0 = a0 \<and> 0 \<le> a0 \<and> a0 \<le> a1 \<and> a1 \<le> n \<and> b0 \<le> b1 \<and> b1 \<le> m \<and> n - a1 = m - b1"
proof -
  from assms(1) have p: "eat_prefix dt 0 0 n m = Inr (a0, b0)"
    and s: "eat_suffix dt a0 b0 n m = Inr (a1, b1)"
    unfolding trim_def by (auto simp: bindE_eq_Inr)
  from eat_prefix_bounds[OF p] eat_prefix_diag[OF p] eat_suffix_bounds[OF s] eat_suffix_diag[OF s] assms(2,3)
  show ?thesis by auto
qed

text \<open>The loop of \<open>result\<close> over \<open>k\<close> pairs without a mark.\<close>

lemma result_loop_walk:
  "0 \<le> x \<Longrightarrow> 0 \<le> y \<Longrightarrow> x + int k \<le> n \<Longrightarrow> y + int k \<le> m \<Longrightarrow>
   n \<le> int (length fl) \<Longrightarrow> m \<le> int (length fl) \<Longrightarrow>
   (\<forall>i. 0 \<le> i \<and> i < int k \<longrightarrow> fl ! nat (x + i) AND 1 = 0 \<and> fl ! nat (y + i) AND 2 = 0) \<Longrightarrow>
   result_loop fl n m x y res = result_loop fl n m (x + int k) (y + int k) res"
proof (induction k arbitrary: x y)
  case 0
  then show ?case by simp
next
  case (Suc k)
  have b: "fl ! nat x AND 1 = 0" "fl ! nat y AND 2 = 0"
    using Suc.prems(7)[rule_format, of 0] by simp_all
  have u: "unmarked fl n m x y = Inr True"
    using Suc.prems b by (simp add: unmarked_def idx_def)
  have st: "result_loop fl n m x y res = result_loop fl n m (x + 1) (y + 1) res"
    using Suc.prems(3,4) u by (subst result_loop.simps) simp
  have "\<forall>i. 0 \<le> i \<and> i < int k \<longrightarrow> fl ! nat (x + 1 + i) AND 1 = 0 \<and> fl ! nat (y + 1 + i) AND 2 = 0"
  proof (intro allI impI)
    fix i assume "0 \<le> i \<and> i < int k"
    then have "fl ! nat (x + (i + 1)) AND 1 = 0 \<and> fl ! nat (y + (i + 1)) AND 2 = 0"
      using Suc.prems(7)[rule_format, of "i + 1"] by simp
    then show "fl ! nat (x + 1 + i) AND 1 = 0 \<and> fl ! nat (y + 1 + i) AND 2 = 0"
      by (simp add: add.assoc add.commute[of 1])
  qed
  then have "result_loop fl n m (x + 1) (y + 1) res = result_loop fl n m (x + 1 + int k) (y + 1 + int k) res"
    using Suc.prems by (intro Suc.IH) auto
  with st show ?case by (simp add: add.assoc add.commute[of 1])
qed

text \<open>The two inner loops of \<open>result\<close> over a block of marks.\<close>

lemma skip_ins_block:
  "0 \<le> y \<Longrightarrow> y \<le> q \<Longrightarrow> q \<le> m \<Longrightarrow> m \<le> int (length fl) \<Longrightarrow>
   (\<forall>j. y \<le> j \<and> j < q \<longrightarrow> fl ! nat j AND 2 \<noteq> 0) \<Longrightarrow>
   (q < m \<longrightarrow> x < n \<and> fl ! nat q AND 2 = 0) \<Longrightarrow>
   skip_ins fl n m x y = Inr q"
proof (induction fl n m x y rule: skip_ins.induct)
  case (1 fl n m x y)
  show ?case
  proof (cases "y < q")
    case False
    with "1.prems" have "y = q" by simp
    with "1.prems" show ?thesis by (subst skip_ins.simps) (auto simp: idx_def)
  next
    case True
    then have ym: "y < m" using "1.prems" by simp
    have go: "(if x \<ge> n then Inr True else bindE (idx fl y) (\<lambda>v. Inr (v AND 2 \<noteq> 0))) = Inr True"
      using True ym "1.prems" by (auto simp: idx_def)
    have "skip_ins fl n m x (y + 1) = Inr q"
      using "1.IH"[OF ym go] True "1.prems" by simp
    with ym go show ?thesis by (subst skip_ins.simps) simp
  qed
qed

lemma skip_del_block:
  "0 \<le> x \<Longrightarrow> x \<le> q \<Longrightarrow> q \<le> n \<Longrightarrow> n \<le> int (length fl) \<Longrightarrow>
   (\<forall>j. x \<le> j \<and> j < q \<longrightarrow> fl ! nat j AND 1 \<noteq> 0) \<Longrightarrow>
   (q < n \<longrightarrow> y < m \<and> fl ! nat q AND 1 = 0) \<Longrightarrow>
   skip_del fl n m y x = Inr q"
proof (induction fl n m y x rule: skip_del.induct)
  case (1 fl n m y x)
  show ?case
  proof (cases "x < q")
    case False
    with "1.prems" have "x = q" by simp
    with "1.prems" show ?thesis by (subst skip_del.simps) (auto simp: idx_def)
  next
    case True
    then have xn: "x < n" using "1.prems" by simp
    have go: "(if y \<ge> m then Inr True else bindE (idx fl x) (\<lambda>v. Inr (v AND 1 \<noteq> 0))) = Inr True"
      using True xn "1.prems" by (auto simp: idx_def)
    have "skip_del fl n m y (x + 1) = Inr q"
      using "1.IH"[OF xn go] True "1.prems" by simp
    with xn go show ?thesis by (subst skip_del.simps) simp
  qed
qed

text \<open>
  The flags after \<open>compare\<close> has marked one block \<open>[p, q)\<close> with \<open>w\<close>, from flags all zero.
\<close>

definition block :: "8 word \<Rightarrow> nat \<Rightarrow> int \<Rightarrow> int \<Rightarrow> 8 word list" where
  "block w l p q = map (\<lambda>j. if p \<le> int j \<and> int j < q then w else 0) [0..<l]"

lemma mark_block:
  "0 \<le> p \<Longrightarrow> q \<le> int l \<Longrightarrow> mark w (replicate l 0) p q = Inr (block w l p q)"
proof -
  assume a: "0 \<le> p" "q \<le> int l"
  have "map (\<lambda>j. if p \<le> int j \<and> int j < q then replicate l 0 ! j OR w else replicate l 0 ! j) [0..<length (replicate l (0 :: 8 word))]
      = block w l p q"
    unfolding block_def by (intro nth_equalityI) auto
  then show ?thesis using mark_range[of p q "replicate l 0" w] a by simp
qed

lemma block_nth:
  "0 \<le> j \<Longrightarrow> j < int l \<Longrightarrow> block w l p q ! nat j = (if p \<le> j \<and> j < q then w else 0)"
  by (simp add: block_def)

lemma result_loop_ins_block:
  assumes "0 \<le> p" "p \<le> q" "q \<le> m" "n - p = m - q" "n \<le> int l" "m \<le> int l"
  shows "result_loop (block 2 l p q) n m 0 0 [] =
           Inr (if p < q then [\<lparr>A = p, B = p, Del = 0, Ins = q - p\<rparr>] else [])"
proof -
  let ?fl = "block 2 l p q"
  have len: "int (length ?fl) = int l" by (simp add: block_def)
  have pn: "p \<le> n" using assms by simp
  have nth: "\<And>j. 0 \<le> j \<Longrightarrow> j < int l \<Longrightarrow> ?fl ! nat j = (if p \<le> j \<and> j < q then 2 else 0)"
    by (rule block_nth)
  have w1: "result_loop ?fl n m 0 0 [] = result_loop ?fl n m (0 + int (nat p)) (0 + int (nat p)) []"
    using assms pn by (intro result_loop_walk) (auto simp: len nth)
  then have w1': "result_loop ?fl n m 0 0 [] = result_loop ?fl n m p p []"
    using assms(1) by simp
  have w2: "result_loop ?fl n m p q res = result_loop ?fl n m (p + int (nat (n - p))) (q + int (nat (n - p))) res" for res
    using assms pn by (intro result_loop_walk) (auto simp: len nth)
  have w2': "result_loop ?fl n m p q res = Inr res" for res
    using w2[of res] assms pn by (simp add: result_loop_stop)
  show ?thesis
  proof (cases "p < q")
    case False
    with assms have "q = p" by simp
    with w1' w2' False show ?thesis by simp
  next
    case True
    have pm: "p < m" using True assms by simp
    have u: "unmarked ?fl n m p p = Inr False"
      using True assms pm by (auto simp: unmarked_def idx_def len nth)
    have sd: "skip_del ?fl n m p p = Inr p"
      using pm assms by (subst skip_del.simps) (auto simp: idx_def len nth)
    have si: "skip_ins ?fl n m p p = Inr q"
      using assms True by (intro skip_ins_block) (auto simp: len nth)
    have "result_loop ?fl n m p p [] = result_loop ?fl n m p q [\<lparr>A = p, B = p, Del = 0, Ins = q - p\<rparr>]"
      using pm u sd si True by (subst result_loop.simps) simp
    with w1' w2' True show ?thesis by simp
  qed
qed

lemma result_loop_del_block:
  assumes "0 \<le> p" "p < q" "q \<le> n" "n - q = m - p" "n \<le> int l" "m \<le> int l"
  shows "result_loop (block 1 l p q) n m 0 0 [] = Inr [\<lparr>A = p, B = p, Del = q - p, Ins = 0\<rparr>]"
proof -
  let ?fl = "block 1 l p q"
  have len: "int (length ?fl) = int l" by (simp add: block_def)
  have pm: "p \<le> m" using assms by simp
  have nth: "\<And>j. 0 \<le> j \<Longrightarrow> j < int l \<Longrightarrow> ?fl ! nat j = (if p \<le> j \<and> j < q then 1 else 0)"
    by (rule block_nth)
  have w1: "result_loop ?fl n m 0 0 [] = result_loop ?fl n m (0 + int (nat p)) (0 + int (nat p)) []"
    using assms pm by (intro result_loop_walk) (auto simp: len nth)
  then have w1': "result_loop ?fl n m 0 0 [] = result_loop ?fl n m p p []"
    using assms(1) by simp
  have w2: "result_loop ?fl n m q p res = result_loop ?fl n m (q + int (nat (n - q))) (p + int (nat (n - q))) res" for res
    using assms pm by (intro result_loop_walk) (auto simp: len nth)
  have w2': "result_loop ?fl n m q p res = Inr res" for res
    using w2[of res] assms pm by (simp add: result_loop_stop)
  have pn: "p < n" using assms by simp
  have u: "unmarked ?fl n m p p = Inr False"
    using assms pn by (auto simp: unmarked_def idx_def len nth)
  have sd: "skip_del ?fl n m p p = Inr q"
    using assms by (intro skip_del_block) (auto simp: len nth)
  have si: "skip_ins ?fl n m q p = Inr p"
    using pm assms by (subst skip_ins.simps) (auto simp: idx_def len nth)
  have "result_loop ?fl n m p p [] = result_loop ?fl n m q p [\<lparr>A = p, B = p, Del = q - p, Ins = 0\<rparr>]"
    using pn u sd si assms(2) by (subst result_loop.simps) simp
  with w1' w2' show ?thesis by simp
qed

text \<open>
  \<open>Diff\<close> when trimming the common prefix and the common suffix uses up the first sequence,
  and when it uses up the second only.
\<close>

lemma Diff_ins_block:
  assumes "0 \<le> N dt" "0 \<le> M dt" and "trim dt 0 0 (N dt) (M dt) = Inr (a0, b0, a0, b1)"
  shows "Diff dt = Some (Inr (if b0 < b1 then [\<lparr>A = a0, B = b0, Del = 0, Ins = b1 - b0\<rparr>] else []))"
proof -
  let ?l = "nat (if N dt > M dt then N dt else M dt)"
  from trim_whole[OF assms(3,1,2)]
  have t: "b0 = a0" "0 \<le> a0" "a0 \<le> N dt" "b0 \<le> b1" "b1 \<le> M dt" "N dt - a0 = M dt - b1" by auto
  have m: "mark 2 (replicate ?l 0) b0 b1 = Inr (block 2 ?l b0 b1)"
    using t by (intro mark_block) auto
  have r: "result_loop (block 2 ?l b0 b1) (N dt) (M dt) 0 0 [] =
           Inr (if b0 < b1 then [\<lparr>A = b0, B = b0, Del = 0, Ins = b1 - b0\<rparr>] else [])"
    using t assms(1,2) by (intro result_loop_ins_block) auto
  show ?thesis
    unfolding Diff_def Let_def
    using assms(1,2) m r t(1)
    by (subst compare_trim) (simp add: make_slice_Inr assms(3) result_def)
qed

lemma Diff_del_block:
  assumes "0 \<le> N dt" "0 \<le> M dt" and "trim dt 0 0 (N dt) (M dt) = Inr (a0, b0, a1, b0)" and "a0 \<noteq> a1"
  shows "Diff dt = Some (Inr [\<lparr>A = a0, B = b0, Del = a1 - a0, Ins = 0\<rparr>])"
proof -
  let ?l = "nat (if N dt > M dt then N dt else M dt)"
  from trim_whole[OF assms(3,1,2)] assms(4)
  have t: "b0 = a0" "0 \<le> a0" "a0 < a1" "a1 \<le> N dt" "b0 \<le> M dt" "N dt - a1 = M dt - b0" by auto
  have m: "mark 1 (replicate ?l 0) a0 a1 = Inr (block 1 ?l a0 a1)"
    using t by (intro mark_block) auto
  have r: "result_loop (block 1 ?l a0 a1) (N dt) (M dt) 0 0 [] = Inr [\<lparr>A = a0, B = a0, Del = a1 - a0, Ins = 0\<rparr>]"
    using t assms(1,2) by (intro result_loop_del_block) auto
  show ?thesis
    unfolding Diff_def Let_def
    using assms(1,2,4) m r t(1)
    by (subst compare_trim) (simp add: make_slice_Inr assms(3) result_def)
qed

text \<open>
  Where no middle snake is needed the two directions agree: when trimming the common prefix
  and the common suffix of the two sequences uses up one of them, so that the sequences differ by one block of insertions or
  of deletions or not at all, diffing the data with the roles of the sequences exchanged (for
  \<open>Ints\<close>, diffing \<open>(B, A)\<close>) returns the change list of \<open>(A, B)\<close> with every change swapped
  (\<open>A' = B\<close>, \<open>B' = A\<close>, \<open>Del' = Ins\<close>, \<open>Ins' = Del\<close>), in the same order.
\<close>

theorem Diff_swap_single_block:
  assumes "0 \<le> N dt" "0 \<le> M dt"
    and "trim dt 0 0 (N dt) (M dt) = Inr (a0, b0, a1, b1)" and "a0 = a1 \<or> b0 = b1"
  shows "\<exists>C. Diff dt = Some (Inr C) \<and> Diff (swap_data dt) = Some (Inr (map swap C))"
proof -
  let ?dt' = "swap_data dt"
  have nm: "N ?dt' = M dt" "M ?dt' = N dt" by (simp_all add: swap_data_def)
  have t': "trim ?dt' 0 0 (N ?dt') (M ?dt') = Inr (b0, a0, b1, a1)"
    unfolding nm by (rule trim_swap[OF assms(3)])
  have p': "0 \<le> N ?dt'" "0 \<le> M ?dt'" using assms(1,2) nm by simp_all
  from trim_whole[OF assms(3,1,2)] have le: "a0 \<le> a1" "b0 \<le> b1" by auto
  show ?thesis
  proof (cases "a0 = a1")
    case a: True
    have d: "Diff dt = Some (Inr (if b0 < b1 then [\<lparr>A = a0, B = b0, Del = 0, Ins = b1 - b0\<rparr>] else []))"
      using Diff_ins_block[OF assms(1,2)] assms(3) a by simp
    show ?thesis
    proof (cases "b0 = b1")
      case True
      have "Diff ?dt' = Some (Inr [])"
        using Diff_ins_block[OF p', of b0 a0 a1] t' True a by simp
      with d True show ?thesis by simp
    next
      case False
      have "Diff ?dt' = Some (Inr [\<lparr>A = b0, B = a0, Del = b1 - b0, Ins = 0\<rparr>])"
        using Diff_del_block[OF p', of b0 a0 b1] t' False a by simp
      with d False le show ?thesis by (simp add: swap_def)
    qed
  next
    case a: False
    with assms(4) have b: "b0 = b1" by simp
    have d: "Diff dt = Some (Inr [\<lparr>A = a0, B = b0, Del = a1 - a0, Ins = 0\<rparr>])"
      using Diff_del_block[OF assms(1,2) _ a, of b0] assms(3) b by simp
    have "Diff ?dt' = Some (Inr (if a0 < a1 then [\<lparr>A = b0, B = a0, Del = 0, Ins = a1 - a0\<rparr>] else []))"
      using Diff_ins_block[OF p', of b0 a0 a1] t' b by simp
    with d a le show ?thesis by (simp add: swap_def)
  qed
qed

theorem Diff_swap_single_block_witness:
  "\<exists>C. Diff (Ints_seq [1, 2, 3] [0, 1, 2, 3]) = Some (Inr C) \<and>
        Diff (Ints_seq [0, 1, 2, 3] [1, 2, 3]) = Some (Inr (map swap C))"
proof -
  let ?dt = "Ints_seq [1, 2, 3] [0, 1, 2, 3]"
  have nm: "N ?dt = 3" "M ?dt = 4" by (simp_all add: Ints_seq_def)
  have t: "trim ?dt 0 0 3 4 = Inr (0, 0, 0, 1)" by code_simp
  from Diff_swap_single_block[of ?dt 0 0 0 1] t nm show ?thesis
    by (simp add: Ints_seq_swap)
qed

text \<open>
  The same on the fixtures of the test suite other than the paper's figure 1 (\<open>shift\<close>,
  \<open>push\<close>, \<open>unshift\<close>, \<open>pop\<close>, \<open>all changed\<close>, \<open>all same\<close>, \<open>wrap\<close>, \<open>snake\<close>), as
  \<open>TestDiffBA\<close> expects.
\<close>

lemma Diff_swap_fixtures:
  "list_all (\<lambda>(a, b). Diff (Ints_seq b a) = map_option (map_sum id (map swap)) (Diff (Ints_seq a b)))
     [([1, 2, 3], [0, 1, 2, 3]),
      ([1, 2, 3], [1, 2, 3, 4]),
      ([0, 1, 2, 3], [1, 2, 3]),
      ([1, 2, 3, 4], [1, 2, 3]),
      ([0, 1, 2, 3, 4, 5, 6, 7, 8, 9], [10, 11, 12, 13, 14]),
      ([0, 1, 2, 3, 4, 5, 6, 7, 8, 9], [0, 1, 2, 3, 4, 5, 6, 7, 8, 9]),
      ([1], [0, 1, 2, 3]),
      ([0, 1, 2, 3, 4, 5], [1, 2, 3, 4, 5, 6])]"
  by code_simp

section \<open>Fixtures of the test suite\<close>

text \<open>
  C8: diffing \<open>A = [1]\<close> against \<open>B = [0, 1, 2, 3]\<close> (the test "wrap") returns exactly the
  two changes \<open>{A:0, B:0, Del:0, Ins:1}\<close> and \<open>{A:1, B:2, Del:0, Ins:2}\<close>, in that order.
\<close>

theorem Diff_wrap:
  "Diff (Ints_seq [1] [0, 1, 2, 3]) =
     Some (Inr [\<lparr>A = 0, B = 0, Del = 0, Ins = 1\<rparr>, \<lparr>A = 1, B = 2, Del = 0, Ins = 2\<rparr>])"
  by code_simp

end
